theory Spec2Isabelle
  imports Main "HOL-Library.Word" "HOL-Library.Multiset"
begin

unbundle bit_operations_syntax

section \<open>Data model (cache.h)\<close>

text \<open>
  Isabelle identifiers cannot end in an underscore, so the private members \<open>cfg_\<close>,
  \<open>stats_\<close>, \<open>sets_\<close>, \<open>off_bits_\<close>, \<open>idx_bits_\<close>, \<open>idx_mask_\<close>, \<open>sets_vec_\<close> and the
  helpers \<open>compute_geometry_\<close>, \<open>init_storage_\<close> appear here without it.

  The simulator is C++ on an LP64 target: \<open>std::size_t\<close> and \<open>uint64_t\<close> are 64-bit
  words, \<open>uint32_t\<close> is a 32-bit word and \<open>int\<close> is a 32-bit two's complement integer.
  Arithmetic on the unsigned types wraps around, which is what \<open>+\<close> on \<open>'a word\<close> does.
\<close>

type_synonym u32 = "32 word"
type_synonym u64 = "64 word"

record CacheConfig =
  name :: string
  size_bytes :: u64
  assoc :: u64
  block_bytes :: u64

record AccessStats =
  reads :: u64
  read_misses :: u64
  writes :: u64
  write_misses :: u64
  writebacks :: u64
  memory_reads :: u64
  memory_writes :: u64
  pref_issued :: u64
  pref_useful :: u64
  pref_late :: u64

datatype Op = Read | Write

record Line =
  valid :: bool
  dirty :: bool
  tag :: u64
  lru_age :: u32

record Cache =
  cfg :: CacheConfig
  stats :: AccessStats
  sets :: u64
  off_bits :: u32
  idx_bits :: u32
  idx_mask :: u64
  sets_vec :: "Line list list"

section \<open>Construction (cache.cc)\<close>

text \<open>\<open>AccessStats::AccessStats()\<close>: every counter starts at zero.\<close>

definition AccessStats_ctor :: AccessStats where
  "AccessStats_ctor =
     \<lparr>reads = 0, read_misses = 0, writes = 0, write_misses = 0,
      writebacks = 0, memory_reads = 0, memory_writes = 0,
      pref_issued = 0, pref_useful = 0, pref_late = 0\<rparr>"

text \<open>The default member initialisers of \<open>struct Line\<close>.\<close>

definition Line_default :: Line where
  "Line_default = \<lparr>valid = False, dirty = False, tag = 0, lru_age = 0\<rparr>"

text \<open>
  \<open>ilog2_uint32\<close>: the assertion aborts unless \<open>x\<close> is a power of two (\<open>None\<close>); the
  \<open>while\<close> loop counts up from 0 while \<open>(1u << n) < x\<close>. A shift by 32 or more is
  undefined in C++; the loop stops there, and \<open>ilog2_loop_pow2\<close> below shows that a
  power of two never gets that far.
\<close>

function ilog2_loop :: "u32 \<Rightarrow> nat \<Rightarrow> nat" where
  "ilog2_loop x n = (if n < 32 \<and> (push_bit n 1 :: u32) < x then ilog2_loop x (n + 1) else n)"
  by pat_completeness auto
termination
  by (relation "measure (\<lambda>(x, n). 32 - n)") auto

declare ilog2_loop.simps [simp del]

definition ilog2_uint32 :: "u32 \<Rightarrow> u32 option" where
  "ilog2_uint32 x =
     (if x \<noteq> 0 \<and> x AND (x - 1) = 0 then Some (of_nat (ilog2_loop x 0)) else None)"

text \<open>
  \<open>Cache::compute_geometry_\<close>. Each failing \<open>assert\<close> aborts the program: \<open>None\<close>
  (the assertions are taken as compiled in).
  The product \<open>assoc * block_bytes\<close> is a \<open>size_t\<close> product and can wrap to 0, in which
  case the \<open>%\<close> of the fourth assertion divides by zero; that is \<open>None\<close> as well.
\<close>

definition compute_geometry :: "Cache \<Rightarrow> Cache option" where
  "compute_geometry c =
     (let k = cfg c in
      if \<not> (block_bytes k \<noteq> 0 \<and> block_bytes k AND (block_bytes k - 1) = 0) then None
      else if \<not> assoc k > 0 then None
      else if \<not> size_bytes k > 0 then None
      else if assoc k * block_bytes k = 0 then None
      else if \<not> size_bytes k mod (assoc k * block_bytes k) = 0 then None
      else
        let n_sets = size_bytes k div (assoc k * block_bytes k) in
        case ilog2_uint32 (ucast (block_bytes k)) of
          None \<Rightarrow> None
        | Some ob \<Rightarrow>
            (case ilog2_uint32 (ucast n_sets) of
               None \<Rightarrow> None
             | Some ib \<Rightarrow>
                 Some (c\<lparr>sets := n_sets, off_bits := ob, idx_bits := ib,
                         idx_mask := (if ib = 64 then NOT 0 else push_bit (unat ib) 1 - 1)\<rparr>)))"

text \<open>
  \<open>Cache::init_storage_\<close>: \<open>sets\<close> sets of \<open>assoc\<close> default lines, then way \<open>w\<close> of
  every set gets \<open>lru_age = w\<close>. The inner loop counts with a \<open>uint32_t w\<close> against the
  \<open>size_t\<close> size of the set: with \<open>2 ^ 32\<close> ways or more \<open>w\<close> wraps around before it
  reaches the size and the loop never ends, so the constructor does not return (\<open>None\<close>).
\<close>

function init_ages :: "Line list \<Rightarrow> nat \<Rightarrow> Line list" where
  "init_ages ls w =
     (if w < length ls then init_ages (ls[w := (ls ! w)\<lparr>lru_age := of_nat w\<rparr>]) (w + 1)
      else ls)"
  by pat_completeness auto
termination
  by (relation "measure (\<lambda>(ls, w). length ls - w)") auto

declare init_ages.simps [simp del]

definition init_storage :: "Cache \<Rightarrow> Cache option" where
  "init_storage c =
     (if 0 < unat (sets c) \<and> 2 ^ 32 \<le> unat (assoc (cfg c)) then None
      else Some (c\<lparr>sets_vec :=
             map (\<lambda>ls. init_ages ls 0)
               (replicate (unat (sets c)) (replicate (unat (assoc (cfg c))) Line_default))\<rparr>))"

text \<open>
  \<open>Cache::Cache(cfg)\<close>: the members take their default initialisers, then the two
  helpers run.
\<close>

definition Cache_ctor :: "CacheConfig \<Rightarrow> Cache option" where
  "Cache_ctor conf =
     (case compute_geometry
             \<lparr>cfg = conf, stats = AccessStats_ctor, sets = 0, off_bits = 0,
              idx_bits = 0, idx_mask = 0, sets_vec = []\<rparr> of
        None \<Rightarrow> None
      | Some c \<Rightarrow> init_storage c)"

section \<open>Address helpers\<close>

definition index_of :: "Cache \<Rightarrow> u32 \<Rightarrow> u64" where
  "index_of c addr = ucast (drop_bit (unat (off_bits c)) addr) AND idx_mask c"

definition tag_of :: "Cache \<Rightarrow> u32 \<Rightarrow> u64" where
  "tag_of c addr = drop_bit (unat (off_bits c + idx_bits c)) (ucast addr :: u64)"

definition block_aligned :: "Cache \<Rightarrow> u32 \<Rightarrow> u32" where
  "block_aligned c addr = addr AND NOT (ucast (block_bytes (cfg c)) - 1)"

section \<open>Core operations\<close>

text \<open>
  The two scans run \<open>int w\<close> up to \<open>static_cast<int>(lines.size())\<close>. A size below
  \<open>2 ^ 31\<close> converts to itself; for a larger one the result is implementation-defined
  before C++20 and, as here, the low 32 bits read as two's complement since.
\<close>

definition int_size :: "'a list \<Rightarrow> int" where
  "int_size xs = sint (word_of_nat (length xs) :: u32)"

text \<open>\<open>Cache::find_way\<close>: the first way that holds a valid line with the tag, or -1.\<close>

function find_way_loop :: "Line list \<Rightarrow> u64 \<Rightarrow> int \<Rightarrow> int" where
  "find_way_loop lines t w =
     (if w < int_size lines then
        (if valid (lines ! nat w) \<and> tag (lines ! nat w) = t then w
         else find_way_loop lines t (w + 1))
      else - 1)"
  by pat_completeness auto
termination
  by (relation "measure (\<lambda>(lines, t, w). nat (int_size lines - w))") auto

declare find_way_loop.simps [simp del]

definition find_way :: "Cache \<Rightarrow> u64 \<Rightarrow> u64 \<Rightarrow> int" where
  "find_way c si t = find_way_loop (sets_vec c ! unat si) t 0"

text \<open>
  \<open>Cache::choose_victim_way\<close>: return at the first invalid way; otherwise keep the way
  whose age is \<open>>=\<close> the largest seen so far.
\<close>

function choose_victim_loop :: "Line list \<Rightarrow> int \<Rightarrow> u32 \<Rightarrow> int \<Rightarrow> int" where
  "choose_victim_loop lines victim max_age w =
     (if w < int_size lines then
        (if \<not> valid (lines ! nat w) then w
         else if lru_age (lines ! nat w) \<ge> max_age
              then choose_victim_loop lines w (lru_age (lines ! nat w)) (w + 1)
              else choose_victim_loop lines victim max_age (w + 1))
      else victim)"
  by pat_completeness auto
termination
  by (relation "measure (\<lambda>(lines, victim, max_age, w). nat (int_size lines - w))") auto

declare choose_victim_loop.simps [simp del]

definition choose_victim_way :: "Cache \<Rightarrow> u64 \<Rightarrow> int" where
  "choose_victim_way c si = choose_victim_loop (sets_vec c ! unat si) 0 0 0"

text \<open>
  \<open>Cache::touch_as_mru\<close>: every valid line of the set ages by one (\<open>++\<close> on
  \<open>uint32_t\<close>), then the touched way gets age 0.
\<close>

definition age_valid :: "Line \<Rightarrow> Line" where
  "age_valid ln = (if valid ln then ln\<lparr>lru_age := lru_age ln + 1\<rparr> else ln)"

definition touch_lines :: "Line list \<Rightarrow> int \<Rightarrow> Line list" where
  "touch_lines lines way =
     (let aged = map age_valid lines in aged[nat way := (aged ! nat way)\<lparr>lru_age := 0\<rparr>])"

definition touch_as_mru :: "Cache \<Rightarrow> u64 \<Rightarrow> int \<Rightarrow> Cache" where
  "touch_as_mru c si way =
     c\<lparr>sets_vec := (sets_vec c)[unat si := touch_lines (sets_vec c ! unat si) way]\<rparr>"

text \<open>\<open>Cache::fill_line\<close>.\<close>

definition fill_line :: "Cache \<Rightarrow> u64 \<Rightarrow> int \<Rightarrow> u64 \<Rightarrow> bool \<Rightarrow> Cache" where
  "fill_line c si way t d =
     (let lines = sets_vec c ! unat si;
          ln = (lines ! nat way)\<lparr>valid := True, dirty := d, tag := t\<rparr>
      in touch_as_mru (c\<lparr>sets_vec := (sets_vec c)[unat si := lines[nat way := ln]]\<rparr>) si way)"

text \<open>
  The address of a victim line, as \<open>allocate_on_miss\<close> rebuilds it: the tag is shifted
  as a 64-bit value, the set index as a 32-bit value, and the result is cut to 32 bits.
\<close>

definition victim_block_addr :: "Cache \<Rightarrow> u64 \<Rightarrow> Line \<Rightarrow> u32" where
  "victim_block_addr c si ln =
     ucast (push_bit (unat (idx_bits c + off_bits c)) (tag ln)
            OR ucast (push_bit (unat (off_bits c)) (ucast si :: u32)))"

text \<open>
  \<open>access\<close>, \<open>allocate_on_miss\<close> and \<open>writeback_down\<close> call one another; the next level
  is a second \<open>Cache\<close> object reached through a pointer that may be null, here a
  \<open>Cache option\<close> passed in and returned updated. The objects are distinct: the driver
  never passes a cache as its own next level. Every nested call passes \<open>nullptr\<close>.
  Each function returns the updated cache, the updated next level, and \<open>access\<close> its
  \<open>bool\<close> result first.
\<close>

function (sequential) access :: "Op \<Rightarrow> u32 \<Rightarrow> Cache \<Rightarrow> Cache option \<Rightarrow> bool \<times> Cache \<times> Cache option"
  and allocate_on_miss :: "u32 \<Rightarrow> bool \<Rightarrow> Cache \<Rightarrow> Cache option \<Rightarrow> Cache \<times> Cache option"
  and writeback_down :: "u32 \<Rightarrow> Cache \<Rightarrow> Cache option \<Rightarrow> Cache \<times> Cache option"
where
  "writeback_down vaddr c None =
     (c\<lparr>stats := (stats c)\<lparr>memory_writes := memory_writes (stats c) + 1,
                              writebacks := writebacks (stats c) + 1\<rparr>\<rparr>, None)"
| "writeback_down vaddr c (Some nl) =
     (case access Write vaddr nl None of
        (h, nl', below) \<Rightarrow>
          (c\<lparr>stats := (stats c)\<lparr>writebacks := writebacks (stats c) + 1\<rparr>\<rparr>, Some nl'))"
| "allocate_on_miss addr make_dirty c next_level =
     (let si = index_of c addr;
          t = tag_of c addr;
          victim = choose_victim_way c si;
          vl = sets_vec c ! unat si ! nat victim;
          (c1, n1) = (if valid vl \<and> dirty vl
                      then writeback_down (victim_block_addr c si vl) c next_level
                      else (c, next_level));
          (c2, n2) = (case n1 of
                        Some nl \<Rightarrow>
                          (case access Read (block_aligned c1 addr) nl None of
                             (h, nl', below) \<Rightarrow> (c1, Some nl'))
                      | None \<Rightarrow>
                          (c1\<lparr>stats := (stats c1)\<lparr>memory_reads := memory_reads (stats c1) + 1\<rparr>\<rparr>,
                           None))
      in (fill_line c2 si victim t make_dirty, n2))"
| "access op addr c next_level =
     (let si = index_of c addr;
          t = tag_of c addr;
          c1 = (if op = Read
                then c\<lparr>stats := (stats c)\<lparr>reads := reads (stats c) + 1\<rparr>\<rparr>
                else c\<lparr>stats := (stats c)\<lparr>writes := writes (stats c) + 1\<rparr>\<rparr>);
          way = find_way c1 si t
      in if way \<ge> 0 then
           (let lines = sets_vec c1 ! unat si;
                c2 = (if op = Write
                      then c1\<lparr>sets_vec :=
                              (sets_vec c1)[unat si := lines[nat way := (lines ! nat way)\<lparr>dirty := True\<rparr>]]\<rparr>
                      else c1)
            in (True, touch_as_mru c2 si way, next_level))
         else
           (let c2 = (if op = Read
                      then c1\<lparr>stats := (stats c1)\<lparr>read_misses := read_misses (stats c1) + 1\<rparr>\<rparr>
                      else c1\<lparr>stats := (stats c1)\<lparr>write_misses := write_misses (stats c1) + 1\<rparr>\<rparr>);
                make_dirty = (op = Write)
            in case allocate_on_miss addr make_dirty c2 next_level of
                 (c3, n3) \<Rightarrow> (False, c3, n3)))"
  by pat_completeness auto

fun call_rank :: "(Op \<times> u32 \<times> Cache \<times> Cache option) + (u32 \<times> bool \<times> Cache \<times> Cache option) + (u32 \<times> Cache \<times> Cache option) \<Rightarrow> nat" where
  "call_rank (Inl (op, addr, c, nl)) = (case nl of None \<Rightarrow> 2 | Some x \<Rightarrow> 5)"
| "call_rank (Inr (Inl (addr, d, c, nl))) = (case nl of None \<Rightarrow> 1 | Some x \<Rightarrow> 4)"
| "call_rank (Inr (Inr (addr, c, nl))) = (case nl of None \<Rightarrow> 0 | Some x \<Rightarrow> 3)"

termination access
proof (relation "measure call_rank", goal_cases)
  case 1
  show ?case by simp
next
  case (2 vaddr c nl)
  show ?case by simp
next
  case (3 addr make_dirty c next_level)
  show ?case by (simp split: option.splits)
next
  case (4 addr make_dirty c next_level si t victim vl x c1 n1 nl)
  have some: "next_level \<noteq> None"
  proof
    assume "next_level = None"
    with 4 show False
      by (auto simp: writeback_down.psimps split: if_splits)
  qed
  then show ?case by auto
next
  case (5 op addr c next_level)
  show ?case by (simp split: option.splits)
qed

declare access.simps [simp del] allocate_on_miss.simps [simp del] writeback_down.simps [simp del]


text \<open>
  A sequence of \<open>access\<close> calls on one cache. Each call names its operation, its
  address and the next level it is given; only the cache itself is followed.
\<close>

fun calls :: "Cache \<Rightarrow> (Op \<times> u32 \<times> Cache option) list \<Rightarrow> Cache" where
  "calls c [] = c"
| "calls c ((op, addr, nl) # rest) = calls (fst (snd (access op addr c nl))) rest"

text \<open>
  Modelled from the spec: \<open>Cache::reset\<close> is declared in cache.h (``Clear/initialize all
  state'') but cache.cc does not define it. The spec's reset operation "returns every
  Line to invalid and every counter to zero, as if freshly constructed": the counters
  are constructed anew and the storage is initialised again for the geometry the cache
  already has.
\<close>

definition reset :: "Cache \<Rightarrow> Cache option" where
  "reset c = init_storage (c\<lparr>stats := AccessStats_ctor\<rparr>)"

section \<open>State invariants\<close>

text \<open>
  \<open>std::vector::operator[]\<close> is unchecked and a shift by the width of the type or more
  is undefined. \<open>index_ok\<close> collects what keeps every set index and shift of \<open>access\<close>
  defined: the bit counts are below 32, the index mask has \<open>idx_bits\<close> ones, there is a
  set for every masked index, and every set has at least one way. \<open>geom_ok\<close> asks in
  addition for fewer than \<open>2 ^ 31\<close> ways, so that the number of ways is an \<open>int\<close> and
  the two scans visit every way. The constructor establishes \<open>index_ok\<close>, and \<open>geom_ok\<close>
  for a configuration with fewer than \<open>2 ^ 31\<close> ways, and \<open>access\<close> keeps both
  (\<open>index_ok_ctor\<close>, \<open>index_ok_access\<close>, \<open>geom_ok_reachable\<close> below).
\<close>

definition index_ok :: "Cache \<Rightarrow> bool" where
  "index_ok c \<longleftrightarrow>
     unat (off_bits c) < 32 \<and> unat (idx_bits c) < 32 \<and>
     idx_mask c = mask (unat (idx_bits c)) \<and>
     2 ^ unat (idx_bits c) \<le> length (sets_vec c) \<and>
     length (sets_vec c) = unat (sets c) \<and>
     (\<forall>ls \<in> set (sets_vec c). 0 < length ls \<and> length ls < 2 ^ 32)"

definition geom_ok :: "Cache \<Rightarrow> bool" where
  "geom_ok c \<longleftrightarrow> index_ok c \<and> (\<forall>ls \<in> set (sets_vec c). length ls < 2 ^ 31)"

text \<open>
  What one \<open>access\<close> with tag \<open>t\<close> does to the lines of the set it selects: the hit
  path (mark dirty on a write, touch) or the miss path (fill the victim, touch). The
  lemma \<open>sets_vec_access\<close> below shows that this is the code's effect on \<open>sets_vec\<close>.
\<close>

definition lines_after :: "Op \<Rightarrow> u64 \<Rightarrow> Line list \<Rightarrow> Line list" where
  "lines_after op t ls =
     (if 0 \<le> find_way_loop ls t 0
      then touch_lines
             (if op = Write
              then ls[nat (find_way_loop ls t 0) := (ls ! nat (find_way_loop ls t 0))\<lparr>dirty := True\<rparr>]
              else ls)
             (find_way_loop ls t 0)
      else touch_lines
             (ls[nat (choose_victim_loop ls 0 0 0) :=
                   (ls ! nat (choose_victim_loop ls 0 0 0))\<lparr>valid := True, dirty := (op = Write), tag := t\<rparr>])
             (choose_victim_loop ls 0 0 0))"

text \<open>No two valid lines of a set carry the same tag, or the same age.\<close>

definition tags_distinct :: "Line list \<Rightarrow> bool" where
  "tags_distinct ls \<longleftrightarrow>
     (\<forall>i < length ls. \<forall>j < length ls.
        i \<noteq> j \<and> valid (ls ! i) \<and> valid (ls ! j) \<longrightarrow> tag (ls ! i) \<noteq> tag (ls ! j))"

definition ages_distinct :: "Line list \<Rightarrow> bool" where
  "ages_distinct ls \<longleftrightarrow>
     (\<forall>i < length ls. \<forall>j < length ls.
        i \<noteq> j \<and> valid (ls ! i) \<and> valid (ls ! j) \<longrightarrow> lru_age (ls ! i) \<noteq> lru_age (ls ! j))"

text \<open>
  With \<open>2 ^ 31\<close> ways or more the \<open>int\<close> bound of the scans is not positive, no scan
  visits a way, and only way 0 is ever filled.
\<close>

definition only_way0 :: "Line list \<Rightarrow> bool" where
  "only_way0 ls \<longleftrightarrow> (\<forall>j < length ls. 0 < j \<longrightarrow> \<not> valid (ls ! j))"

definition set_tags_ok :: "Line list \<Rightarrow> bool" where
  "set_tags_ok ls \<longleftrightarrow>
     (int_size ls = int (length ls) \<and> tags_distinct ls) \<or> (int_size ls \<le> 0 \<and> only_way0 ls)"

definition tags_inv :: "Cache \<Rightarrow> bool" where
  "tags_inv c \<longleftrightarrow> index_ok c \<and> (\<forall>ls \<in> set (sets_vec c). set_tags_ok ls)"

section \<open>Example configurations\<close>

text \<open>
  A cache of two sets with two ways each and 16-byte blocks, as \<open>Cache_ctor\<close> builds it,
  and a short trace on it.
\<close>

definition demo_cfg :: CacheConfig where
  "demo_cfg = \<lparr>name = ''L1'', size_bytes = 64, assoc = 2, block_bytes = 16\<rparr>"

definition fresh_line :: "u32 \<Rightarrow> Line" where
  "fresh_line a = \<lparr>valid = False, dirty = False, tag = 0, lru_age = a\<rparr>"

definition demo_l1 :: Cache where
  "demo_l1 =
     \<lparr>cfg = demo_cfg, stats = AccessStats_ctor, sets = 2, off_bits = 4, idx_bits = 1,
      idx_mask = 1,
      sets_vec = [[fresh_line 0, fresh_line 1], [fresh_line 0, fresh_line 1]]\<rparr>"

definition demo_trace :: "(Op \<times> u32 \<times> Cache option) list" where
  "demo_trace = [(Write, 0x100, None), (Read, 0x200, None), (Read, 0x104, None), (Write, 0x300, None)]"

text \<open>
  The example cache after a write miss to \<open>0x100\<close>, and after a read miss to \<open>0x200\<close>
  that follows it: set 0 is then full, its older line dirty.
\<close>

definition demo_one :: Cache where
  "demo_one =
     \<lparr>cfg = demo_cfg,
      stats = \<lparr>reads = 0, read_misses = 0, writes = 1, write_misses = 1,
                writebacks = 0, memory_reads = 1, memory_writes = 0,
                pref_issued = 0, pref_useful = 0, pref_late = 0\<rparr>,
      sets = 2, off_bits = 4, idx_bits = 1, idx_mask = 1,
      sets_vec = [[\<lparr>valid = True, dirty = True, tag = 8, lru_age = 0\<rparr>, fresh_line 1],
                  [fresh_line 0, fresh_line 1]]\<rparr>"

definition demo_full :: Cache where
  "demo_full =
     \<lparr>cfg = demo_cfg,
      stats = \<lparr>reads = 1, read_misses = 1, writes = 1, write_misses = 1,
                writebacks = 0, memory_reads = 2, memory_writes = 0,
                pref_issued = 0, pref_useful = 0, pref_late = 0\<rparr>,
      sets = 2, off_bits = 4, idx_bits = 1, idx_mask = 1,
      sets_vec = [[\<lparr>valid = True, dirty = True, tag = 8, lru_age = 1\<rparr>,
                   \<lparr>valid = True, dirty = False, tag = 16, lru_age = 0\<rparr>],
                  [fresh_line 0, fresh_line 1]]\<rparr>"

text \<open>
  A trace that fills set 0 of the example cache and then reads the newer of its two
  lines \<open>n\<close> more times; the older line stays valid and is not touched again.
\<close>

definition hot_trace :: "nat \<Rightarrow> (Op \<times> u32 \<times> Cache option) list" where
  "hot_trace n = [(Write, 0x100, None), (Read, 0x200, None)] @ replicate n (Read, 0x200, None)"

text \<open>The example cache after \<open>2 ^ 32\<close> calls: the older line has age \<open>2 ^ 32 - 1\<close>.\<close>

definition aged_state :: Cache where
  "aged_state = calls demo_l1 (hot_trace 4294967294)"

text \<open>
  Every valid line of the set has an age below \<open>n\<close>; \<open>n\<close> will be the number of calls
  made so far.
\<close>

definition ages_below :: "nat \<Rightarrow> Line list \<Rightarrow> bool" where
  "ages_below n ls \<longleftrightarrow> (\<forall>i < length ls. valid (ls ! i) \<longrightarrow> unat (lru_age (ls ! i)) < n)"

definition set_ages_ok :: "nat \<Rightarrow> Line list \<Rightarrow> bool" where
  "set_ages_ok n ls \<longleftrightarrow>
     (int_size ls = int (length ls) \<and> ages_distinct ls \<and> ages_below n ls) \<or>
     (int_size ls \<le> 0 \<and> only_way0 ls)"

definition ages_inv :: "nat \<Rightarrow> Cache \<Rightarrow> bool" where
  "ages_inv n c \<longleftrightarrow> index_ok c \<and> (\<forall>ls \<in> set (sets_vec c). set_ages_ok n ls)"

text \<open>
  The counters after \<open>n\<close> calls, read as numbers, and the order on two snapshots of
  the counters.
\<close>

definition stats_bounded :: "nat \<Rightarrow> AccessStats \<Rightarrow> bool" where
  "stats_bounded n s \<longleftrightarrow>
     unat (reads s) + unat (writes s) = n \<and>
     unat (read_misses s) \<le> unat (reads s) \<and> unat (write_misses s) \<le> unat (writes s) \<and>
     unat (writebacks s) \<le> n \<and> unat (memory_reads s) \<le> n \<and> unat (memory_writes s) \<le> n \<and>
     pref_issued s = 0 \<and> pref_useful s = 0 \<and> pref_late s = 0"

definition stats_le :: "AccessStats \<Rightarrow> AccessStats \<Rightarrow> bool" where
  "stats_le s s' \<longleftrightarrow>
     reads s \<le> reads s' \<and> read_misses s \<le> read_misses s' \<and>
     writes s \<le> writes s' \<and> write_misses s \<le> write_misses s' \<and>
     writebacks s \<le> writebacks s' \<and> memory_reads s \<le> memory_reads s' \<and>
     memory_writes s \<le> memory_writes s' \<and> pref_issued s \<le> pref_issued s' \<and>
     pref_useful s \<le> pref_useful s' \<and> pref_late s \<le> pref_late s'"

text \<open>\<open>2 ^ 64\<close> reads of one address.\<close>

definition long_trace :: "(Op \<times> u32 \<times> Cache option) list" where
  "long_trace = replicate 18446744073709551616 (Read, 0x100, None)"

text \<open>
  Modelled from the spec: the reset operation "has no effect on a second, different
  engine instance". Engine instances are objects; \<open>reset_at\<close> is \<open>reset\<close> invoked on the
  instance at handle \<open>p\<close> of a store of instances.
\<close>

definition reset_at :: "(nat \<rightharpoonup> Cache) \<Rightarrow> nat \<Rightarrow> (nat \<rightharpoonup> Cache) option" where
  "reset_at h p =
     (case h p of
        None \<Rightarrow> None
      | Some c \<Rightarrow> (case reset c of None \<Rightarrow> None | Some c' \<Rightarrow> Some (h(p \<mapsto> c'))))"

section \<open>Lemmas\<close>

lemma int_size_small: "length xs < 2 ^ 31 \<Longrightarrow> int_size xs = int (length xs)"
  unfolding int_size_def
  by (simp add: signed_of_nat signed_take_bit_int_eq_self)

lemma unat_succ32: "unat (x :: u32) < 2 ^ 32 - 1 \<Longrightarrow> unat (x + 1) = unat x + 1"
  using unat_add_lem [of x 1] by simp

lemma succ32_nz: "unat (x :: u32) < 2 ^ 32 - 1 \<Longrightarrow> x + 1 \<noteq> 0"
  using unat_succ32 [of x] by (metis Suc_eq_plus1 nat.distinct(1) unat_eq_zero)

lemma unat_succ64: "unat (x :: u64) < 2 ^ 64 - 1 \<Longrightarrow> unat (x + 1) = unat x + 1"
  using unat_add_lem [of x 1] by simp

lemma find_way_loop_neg: "find_way_loop lines t w < 0 \<Longrightarrow> 0 \<le> w \<Longrightarrow> find_way_loop lines t w = - 1"
proof (induction lines t w rule: find_way_loop.induct)
  case (1 lines t w)
  then show ?case
    by (subst find_way_loop.simps, subst (asm) (3) find_way_loop.simps) (auto split: if_splits)
qed

lemma find_way_loop_step:
  "w < int_size lines \<Longrightarrow> \<not> (valid (lines ! nat w) \<and> tag (lines ! nat w) = t) \<Longrightarrow>
   find_way_loop lines t w = find_way_loop lines t (w + 1)"
  by (subst find_way_loop.simps) auto

lemma find_way_loop_stop:
  "w < int_size lines \<Longrightarrow> valid (lines ! nat w) \<and> tag (lines ! nat w) = t \<Longrightarrow>
   find_way_loop lines t w = w"
  by (subst find_way_loop.simps) simp

lemma find_way_loop_end:
  "\<not> w < int_size lines \<Longrightarrow> find_way_loop lines t w = - 1"
  by (subst find_way_loop.simps) simp

lemma find_way_loop_hit:
  assumes "int_size lines = int (length lines)" "0 \<le> w" "0 \<le> find_way_loop lines t w"
  shows "w \<le> find_way_loop lines t w \<and> nat (find_way_loop lines t w) < length lines \<and>
         valid (lines ! nat (find_way_loop lines t w)) \<and> tag (lines ! nat (find_way_loop lines t w)) = t \<and>
         (\<forall>j. nat w \<le> j \<and> j < nat (find_way_loop lines t w) \<longrightarrow> \<not> (valid (lines ! j) \<and> tag (lines ! j) = t))"
  using assms
proof (induction lines t w rule: find_way_loop.induct)
  case (1 lines t w)
  show ?case
  proof (cases "w < int_size lines")
    case False
    with 1 show ?thesis by (simp add: find_way_loop_end)
  next
    case inr: True
    show ?thesis
    proof (cases "valid (lines ! nat w) \<and> tag (lines ! nat w) = t")
      case True
      have "find_way_loop lines t w = w" using inr True by (rule find_way_loop_stop)
      with inr 1(2,3) True show ?thesis by auto
    next
      case False
      have eq: "find_way_loop lines t w = find_way_loop lines t (w + 1)"
        using inr False by (rule find_way_loop_step)
      have ih: "w + 1 \<le> find_way_loop lines t (w + 1) \<and> nat (find_way_loop lines t (w + 1)) < length lines \<and>
         valid (lines ! nat (find_way_loop lines t (w + 1))) \<and> tag (lines ! nat (find_way_loop lines t (w + 1))) = t \<and>
         (\<forall>j. nat (w + 1) \<le> j \<and> j < nat (find_way_loop lines t (w + 1)) \<longrightarrow> \<not> (valid (lines ! j) \<and> tag (lines ! j) = t))"
        using 1 inr False eq by auto
      have nxt: "\<And>j. nat w \<le> j \<Longrightarrow> j \<noteq> nat w \<Longrightarrow> nat (w + 1) \<le> j"
        using 1(3) by linarith
      have "\<forall>j. nat w \<le> j \<and> j < nat (find_way_loop lines t (w + 1)) \<longrightarrow> \<not> (valid (lines ! j) \<and> tag (lines ! j) = t)"
      proof (intro allI impI)
        fix j assume j: "nat w \<le> j \<and> j < nat (find_way_loop lines t (w + 1))"
        show "\<not> (valid (lines ! j) \<and> tag (lines ! j) = t)"
        proof (cases "j = nat w")
          case True with False show ?thesis by simp
        next
          case F: False
          with j nxt have "nat (w + 1) \<le> j" by blast
          with ih j show ?thesis by blast
        qed
      qed
      with ih show ?thesis unfolding eq by auto
    qed
  qed
qed

lemma find_way_loop_miss:
  assumes "int_size lines = int (length lines)" "0 \<le> w" "find_way_loop lines t w < 0"
  shows "\<forall>j. nat w \<le> j \<and> j < length lines \<longrightarrow> \<not> (valid (lines ! j) \<and> tag (lines ! j) = t)"
  using assms
proof (induction lines t w rule: find_way_loop.induct)
  case (1 lines t w)
  show ?case
  proof (cases "w < int_size lines")
    case False
    with 1 show ?thesis by auto
  next
    case inr: True
    show ?thesis
    proof (cases "valid (lines ! nat w) \<and> tag (lines ! nat w) = t")
      case True
      have "find_way_loop lines t w = w" using inr True by (rule find_way_loop_stop)
      with 1(3,4) show ?thesis by simp
    next
      case False
      have eq: "find_way_loop lines t w = find_way_loop lines t (w + 1)"
        using inr False by (rule find_way_loop_step)
      have ih: "\<forall>j. nat (w + 1) \<le> j \<and> j < length lines \<longrightarrow> \<not> (valid (lines ! j) \<and> tag (lines ! j) = t)"
        using 1 inr False eq by auto
      show ?thesis
      proof (intro allI impI)
        fix j assume j: "nat w \<le> j \<and> j < length lines"
        show "\<not> (valid (lines ! j) \<and> tag (lines ! j) = t)"
        proof (cases "j = nat w")
          case True with False show ?thesis by simp
        next
          case F: False
          with j 1(3) have "nat (w + 1) \<le> j" by linarith
          with ih j show ?thesis by blast
        qed
      qed
    qed
  qed
qed

lemma choose_victim_loop_end:
  "\<not> w < int_size lines \<Longrightarrow> choose_victim_loop lines victim max_age w = victim"
  by (subst choose_victim_loop.simps) simp

lemma choose_victim_loop_free:
  "w < int_size lines \<Longrightarrow> \<not> valid (lines ! nat w) \<Longrightarrow>
   choose_victim_loop lines victim max_age w = w"
  by (subst choose_victim_loop.simps) simp

lemma choose_victim_loop_older:
  "w < int_size lines \<Longrightarrow> valid (lines ! nat w) \<Longrightarrow> max_age \<le> lru_age (lines ! nat w) \<Longrightarrow>
   choose_victim_loop lines victim max_age w =
   choose_victim_loop lines w (lru_age (lines ! nat w)) (w + 1)"
  by (subst choose_victim_loop.simps) simp

lemma choose_victim_loop_younger:
  "w < int_size lines \<Longrightarrow> valid (lines ! nat w) \<Longrightarrow> \<not> max_age \<le> lru_age (lines ! nat w) \<Longrightarrow>
   choose_victim_loop lines victim max_age w =
   choose_victim_loop lines victim max_age (w + 1)"
  by (subst choose_victim_loop.simps) simp

text \<open>With an invalid way at or after w, the loop returns the first such way.\<close>

lemma choose_victim_loop_invalid:
  assumes "int_size lines = int (length lines)" "0 \<le> w"
    and "\<exists>j. nat w \<le> j \<and> j < length lines \<and> \<not> valid (lines ! j)"
  shows "w \<le> choose_victim_loop lines victim max_age w \<and>
         nat (choose_victim_loop lines victim max_age w) < length lines \<and>
         \<not> valid (lines ! nat (choose_victim_loop lines victim max_age w)) \<and>
         (\<forall>j. nat w \<le> j \<and> j < nat (choose_victim_loop lines victim max_age w) \<longrightarrow> valid (lines ! j))"
  using assms
proof (induction lines victim max_age w rule: choose_victim_loop.induct)
  case (1 lines victim max_age w)
  from 1(5) obtain j0 where j0: "nat w \<le> j0" "j0 < length lines" "\<not> valid (lines ! j0)" by blast
  with 1(3,4) have inr: "w < int_size lines" by linarith
  show ?case
  proof (cases "valid (lines ! nat w)")
    case False
    have "choose_victim_loop lines victim max_age w = w"
      using inr False by (rule choose_victim_loop_free)
    with inr 1(3,4) False show ?thesis by auto
  next
    case True
    with j0 have "j0 \<noteq> nat w" by auto
    with j0 1(4) have "nat (w + 1) \<le> j0" by linarith
    with j0 have ex: "\<exists>j. nat (w + 1) \<le> j \<and> j < length lines \<and> \<not> valid (lines ! j)" by blast
    have w1: "0 \<le> w + 1" using 1(4) by simp
    have nxt: "\<And>j. nat w \<le> j \<Longrightarrow> j \<noteq> nat w \<Longrightarrow> nat (w + 1) \<le> j"
      using 1(4) by linarith
    show ?thesis
    proof (cases "max_age \<le> lru_age (lines ! nat w)")
      case older: True
      have eq: "choose_victim_loop lines victim max_age w =
                choose_victim_loop lines w (lru_age (lines ! nat w)) (w + 1)"
        using inr True older by (rule choose_victim_loop_older)
      have ih: "w + 1 \<le> choose_victim_loop lines w (lru_age (lines ! nat w)) (w + 1) \<and>
         nat (choose_victim_loop lines w (lru_age (lines ! nat w)) (w + 1)) < length lines \<and>
         \<not> valid (lines ! nat (choose_victim_loop lines w (lru_age (lines ! nat w)) (w + 1))) \<and>
         (\<forall>j. nat (w + 1) \<le> j \<and> j < nat (choose_victim_loop lines w (lru_age (lines ! nat w)) (w + 1)) \<longrightarrow> valid (lines ! j))"
        using 1(1) [OF inr _ older 1(3) w1 ex] True by simp
      show ?thesis unfolding eq using ih True nxt by (metis add_le_imp_le_diff add_diff_cancel_right' order_less_imp_le zle_add1_eq_le linorder_not_less)
    next
      case younger: False
      have eq: "choose_victim_loop lines victim max_age w =
                choose_victim_loop lines victim max_age (w + 1)"
        using inr True younger by (rule choose_victim_loop_younger)
      have ih: "w + 1 \<le> choose_victim_loop lines victim max_age (w + 1) \<and>
         nat (choose_victim_loop lines victim max_age (w + 1)) < length lines \<and>
         \<not> valid (lines ! nat (choose_victim_loop lines victim max_age (w + 1))) \<and>
         (\<forall>j. nat (w + 1) \<le> j \<and> j < nat (choose_victim_loop lines victim max_age (w + 1)) \<longrightarrow> valid (lines ! j))"
        using 1(2) [OF inr _ younger 1(3) w1 ex] True by simp
      show ?thesis unfolding eq using ih True nxt by (metis add_le_imp_le_diff add_diff_cancel_right' order_less_imp_le zle_add1_eq_le linorder_not_less)
    qed
  qed
qed

text \<open>With every way from w on valid, the loop keeps the last way of largest age.\<close>

lemma choose_victim_loop_valid:
  assumes "int_size lines = int (length lines)" "0 \<le> w"
    and "\<forall>j. nat w \<le> j \<and> j < length lines \<longrightarrow> valid (lines ! j)"
  shows "(choose_victim_loop lines victim max_age w = victim \<and>
           (\<forall>j. nat w \<le> j \<and> j < length lines \<longrightarrow> lru_age (lines ! j) < max_age)) \<or>
         (w \<le> choose_victim_loop lines victim max_age w \<and>
          nat (choose_victim_loop lines victim max_age w) < length lines \<and>
          max_age \<le> lru_age (lines ! nat (choose_victim_loop lines victim max_age w)) \<and>
          (\<forall>j. nat w \<le> j \<and> j < length lines \<longrightarrow>
               lru_age (lines ! j) \<le> lru_age (lines ! nat (choose_victim_loop lines victim max_age w))) \<and>
          (\<forall>j. nat (choose_victim_loop lines victim max_age w) < j \<and> j < length lines \<longrightarrow>
               lru_age (lines ! j) < lru_age (lines ! nat (choose_victim_loop lines victim max_age w))))"
  using assms
proof (induction lines victim max_age w rule: choose_victim_loop.induct)
  case (1 lines victim max_age w)
  show ?case
  proof (cases "w < int_size lines")
    case False
    have "choose_victim_loop lines victim max_age w = victim"
      using False by (rule choose_victim_loop_end)
    moreover have "\<forall>j. nat w \<le> j \<and> j < length lines \<longrightarrow> lru_age (lines ! j) < max_age"
      using False 1(3,4) by auto
    ultimately show ?thesis by blast
  next
    case inr: True
    have vw: "valid (lines ! nat w)" using inr 1(3,4,5) by auto
    have w1: "0 \<le> w + 1" using 1(4) by simp
    have all1: "\<forall>j. nat (w + 1) \<le> j \<and> j < length lines \<longrightarrow> valid (lines ! j)"
      using 1(5) 1(4) by auto
    have nxt: "\<And>j. nat w \<le> j \<Longrightarrow> j \<noteq> nat w \<Longrightarrow> nat (w + 1) \<le> j"
      using 1(4) by linarith
    have wlt: "nat w < length lines" using inr 1(3,4) by auto
    show ?thesis
    proof (cases "max_age \<le> lru_age (lines ! nat w)")
      case older: True
      define r where "r = choose_victim_loop lines w (lru_age (lines ! nat w)) (w + 1)"
      have eq: "choose_victim_loop lines victim max_age w = r"
        unfolding r_def using inr vw older by (rule choose_victim_loop_older)
      have ih: "(r = w \<and> (\<forall>j. nat (w + 1) \<le> j \<and> j < length lines \<longrightarrow> lru_age (lines ! j) < lru_age (lines ! nat w))) \<or>
         (w + 1 \<le> r \<and> nat r < length lines \<and> lru_age (lines ! nat w) \<le> lru_age (lines ! nat r) \<and>
          (\<forall>j. nat (w + 1) \<le> j \<and> j < length lines \<longrightarrow> lru_age (lines ! j) \<le> lru_age (lines ! nat r)) \<and>
          (\<forall>j. nat r < j \<and> j < length lines \<longrightarrow> lru_age (lines ! j) < lru_age (lines ! nat r)))"
        unfolding r_def using 1(1) [OF inr _ older 1(3) w1 all1] vw by simp
      have "w \<le> r \<and> nat r < length lines \<and> max_age \<le> lru_age (lines ! nat r) \<and>
          (\<forall>j. nat w \<le> j \<and> j < length lines \<longrightarrow> lru_age (lines ! j) \<le> lru_age (lines ! nat r)) \<and>
          (\<forall>j. nat r < j \<and> j < length lines \<longrightarrow> lru_age (lines ! j) < lru_age (lines ! nat r))"
        using ih
      proof
        assume a: "r = w \<and> (\<forall>j. nat (w + 1) \<le> j \<and> j < length lines \<longrightarrow> lru_age (lines ! j) < lru_age (lines ! nat w))"
        then have rw: "r = w" by simp
        have "\<forall>j. nat w \<le> j \<and> j < length lines \<longrightarrow> lru_age (lines ! j) \<le> lru_age (lines ! nat w)"
          using a nxt by (metis order_less_imp_le order_refl)
        moreover have "\<forall>j. nat w < j \<and> j < length lines \<longrightarrow> lru_age (lines ! j) < lru_age (lines ! nat w)"
          using a nxt by (metis order_less_imp_le less_irrefl)
        ultimately show ?thesis using rw wlt older by simp
      next
        assume b: "w + 1 \<le> r \<and> nat r < length lines \<and> lru_age (lines ! nat w) \<le> lru_age (lines ! nat r) \<and>
          (\<forall>j. nat (w + 1) \<le> j \<and> j < length lines \<longrightarrow> lru_age (lines ! j) \<le> lru_age (lines ! nat r)) \<and>
          (\<forall>j. nat r < j \<and> j < length lines \<longrightarrow> lru_age (lines ! j) < lru_age (lines ! nat r))"
        have "\<forall>j. nat w \<le> j \<and> j < length lines \<longrightarrow> lru_age (lines ! j) \<le> lru_age (lines ! nat r)"
          using b nxt by metis
        moreover have "max_age \<le> lru_age (lines ! nat r)" using b older by auto
        moreover have "w \<le> r" using b by simp
        ultimately show ?thesis using b by blast
      qed
      then show ?thesis unfolding eq by blast
    next
      case younger: False
      define r where "r = choose_victim_loop lines victim max_age (w + 1)"
      have eq: "choose_victim_loop lines victim max_age w = r"
        unfolding r_def using inr vw younger by (rule choose_victim_loop_younger)
      have ih: "(r = victim \<and> (\<forall>j. nat (w + 1) \<le> j \<and> j < length lines \<longrightarrow> lru_age (lines ! j) < max_age)) \<or>
         (w + 1 \<le> r \<and> nat r < length lines \<and> max_age \<le> lru_age (lines ! nat r) \<and>
          (\<forall>j. nat (w + 1) \<le> j \<and> j < length lines \<longrightarrow> lru_age (lines ! j) \<le> lru_age (lines ! nat r)) \<and>
          (\<forall>j. nat r < j \<and> j < length lines \<longrightarrow> lru_age (lines ! j) < lru_age (lines ! nat r)))"
        unfolding r_def using 1(2) [OF inr _ younger 1(3) w1 all1] vw by simp
      have lt: "lru_age (lines ! nat w) < max_age" using younger by simp
      from ih show ?thesis
      proof
        assume a: "r = victim \<and> (\<forall>j. nat (w + 1) \<le> j \<and> j < length lines \<longrightarrow> lru_age (lines ! j) < max_age)"
        have "\<forall>j. nat w \<le> j \<and> j < length lines \<longrightarrow> lru_age (lines ! j) < max_age"
          using a nxt lt by metis
        with a show ?thesis unfolding eq by blast
      next
        assume b: "w + 1 \<le> r \<and> nat r < length lines \<and> max_age \<le> lru_age (lines ! nat r) \<and>
          (\<forall>j. nat (w + 1) \<le> j \<and> j < length lines \<longrightarrow> lru_age (lines ! j) \<le> lru_age (lines ! nat r)) \<and>
          (\<forall>j. nat r < j \<and> j < length lines \<longrightarrow> lru_age (lines ! j) < lru_age (lines ! nat r))"
        have wr: "lru_age (lines ! nat w) \<le> lru_age (lines ! nat r)" using lt b by auto
        have "\<forall>j. nat w \<le> j \<and> j < length lines \<longrightarrow> lru_age (lines ! j) \<le> lru_age (lines ! nat r)"
          using b nxt wr by metis
        moreover have "w \<le> r" using b by simp
        ultimately show ?thesis unfolding eq using b by blast
      qed
    qed
  qed
qed

lemma length_touch_lines [simp]: "length (touch_lines ls way) = length ls"
  by (simp add: touch_lines_def Let_def)

lemma touch_lines_nth:
  "j < length ls \<Longrightarrow>
   touch_lines ls way ! j = (if j = nat way then (age_valid (ls ! j))\<lparr>lru_age := 0\<rparr> else age_valid (ls ! j))"
  by (simp add: touch_lines_def Let_def nth_list_update)

lemma age_valid_fields [simp]:
  "valid (age_valid ln) = valid ln" "dirty (age_valid ln) = dirty ln" "tag (age_valid ln) = tag ln"
  by (simp_all add: age_valid_def)

lemma touch_as_mru_frame [simp]:
  "cfg (touch_as_mru c si way) = cfg c" "stats (touch_as_mru c si way) = stats c"
  "sets (touch_as_mru c si way) = sets c" "off_bits (touch_as_mru c si way) = off_bits c"
  "idx_bits (touch_as_mru c si way) = idx_bits c" "idx_mask (touch_as_mru c si way) = idx_mask c"
  by (simp_all add: touch_as_mru_def)

lemma fill_line_frame [simp]:
  "cfg (fill_line c si way t d) = cfg c" "stats (fill_line c si way t d) = stats c"
  "sets (fill_line c si way t d) = sets c" "off_bits (fill_line c si way t d) = off_bits c"
  "idx_bits (fill_line c si way t d) = idx_bits c" "idx_mask (fill_line c si way t d) = idx_mask c"
  by (simp_all add: fill_line_def Let_def)

lemma stats_irrelevant [simp]:
  "find_way (c\<lparr>stats := s\<rparr>) si t = find_way c si t"
  "choose_victim_way (c\<lparr>stats := s\<rparr>) si = choose_victim_way c si"
  "index_of (c\<lparr>stats := s\<rparr>) addr = index_of c addr"
  "tag_of (c\<lparr>stats := s\<rparr>) addr = tag_of c addr"
  "block_aligned (c\<lparr>stats := s\<rparr>) addr = block_aligned c addr"
  "victim_block_addr (c\<lparr>stats := s\<rparr>) si ln = victim_block_addr c si ln"
  by (simp_all add: find_way_def choose_victim_way_def index_of_def tag_of_def block_aligned_def
        victim_block_addr_def)

lemma sets_vec_touch_as_mru:
  "sets_vec (touch_as_mru c si way) =
   (sets_vec c)[unat si := touch_lines (sets_vec c ! unat si) way]"
  by (simp add: touch_as_mru_def)

lemma sets_vec_fill_line:
  "unat si < length (sets_vec c) \<Longrightarrow>
   sets_vec (fill_line c si way t d) =
   (sets_vec c)[unat si :=
      touch_lines ((sets_vec c ! unat si)
                     [nat way := (sets_vec c ! unat si ! nat way)\<lparr>valid := True, dirty := d, tag := t\<rparr>]) way]"
  by (simp add: fill_line_def Let_def touch_as_mru_def)

text \<open>What a writeback does to the evicting cache and to the next level.\<close>

lemma writeback_down_this:
  "fst (writeback_down vaddr c nl) =
   c\<lparr>stats := (stats c)\<lparr>memory_writes := memory_writes (stats c) + (if nl = None then 1 else 0),
                          writebacks := writebacks (stats c) + 1\<rparr>\<rparr>"
  by (cases nl) (simp_all add: writeback_down.simps split: prod.splits)

lemma writeback_down_next:
  "snd (writeback_down vaddr c nl) =
   (case nl of None \<Rightarrow> None | Some n \<Rightarrow> Some (fst (snd (access Write vaddr n None))))"
  by (cases nl) (simp_all add: writeback_down.simps split: prod.splits)

text \<open>The hit path of access.\<close>

lemma access_hit:
  assumes "0 \<le> find_way c (index_of c addr) (tag_of c addr)"
  shows "access op addr c nl =
     (True,
      touch_as_mru
        (if op = Write
         then c\<lparr>stats := (stats c)\<lparr>writes := writes (stats c) + 1\<rparr>,
                sets_vec := (sets_vec c)[unat (index_of c addr) :=
                   (sets_vec c ! unat (index_of c addr))
                     [nat (find_way c (index_of c addr) (tag_of c addr)) :=
                        (sets_vec c ! unat (index_of c addr) ! nat (find_way c (index_of c addr) (tag_of c addr)))
                          \<lparr>dirty := True\<rparr>]]\<rparr>
         else c\<lparr>stats := (stats c)\<lparr>reads := reads (stats c) + 1\<rparr>\<rparr>)
        (index_of c addr) (find_way c (index_of c addr) (tag_of c addr)),
      nl)"
  using assms by (subst access.simps, cases op) (simp_all add: Let_def)

text \<open>The miss path.\<close>

lemma allocate_on_miss_None:
  "allocate_on_miss addr d c None =
     (let si = index_of c addr; victim = choose_victim_way c si;
          vl = sets_vec c ! unat si ! nat victim;
          c1 = (if valid vl \<and> dirty vl
                then c\<lparr>stats := (stats c)\<lparr>memory_writes := memory_writes (stats c) + 1,
                                         writebacks := writebacks (stats c) + 1\<rparr>\<rparr>
                else c)
      in (fill_line (c1\<lparr>stats := (stats c1)\<lparr>memory_reads := memory_reads (stats c1) + 1\<rparr>\<rparr>)
             si victim (tag_of c addr) d, None))"
  by (subst allocate_on_miss.simps) (simp add: Let_def writeback_down.simps)

lemma allocate_on_miss_Some:
  "allocate_on_miss addr d c (Some n) =
     (let si = index_of c addr; victim = choose_victim_way c si;
          vl = sets_vec c ! unat si ! nat victim;
          c1 = (if valid vl \<and> dirty vl
                then c\<lparr>stats := (stats c)\<lparr>writebacks := writebacks (stats c) + 1\<rparr>\<rparr>
                else c);
          n1 = (if valid vl \<and> dirty vl
                then fst (snd (access Write (victim_block_addr c si vl) n None))
                else n)
      in (fill_line c1 si victim (tag_of c addr) d,
          Some (fst (snd (access Read (block_aligned c addr) n1 None)))))"
  by (subst allocate_on_miss.simps)
     (simp add: Let_def writeback_down.simps block_aligned_def split: prod.splits)

lemma access_miss:
  assumes "find_way c (index_of c addr) (tag_of c addr) < 0"
  shows "access op addr c nl =
     (case allocate_on_miss addr (op = Write)
             (if op = Read
              then c\<lparr>stats := (stats c)\<lparr>reads := reads (stats c) + 1,
                                       read_misses := read_misses (stats c) + 1\<rparr>\<rparr>
              else c\<lparr>stats := (stats c)\<lparr>writes := writes (stats c) + 1,
                                       write_misses := write_misses (stats c) + 1\<rparr>\<rparr>) nl of
        (c3, n3) \<Rightarrow> (False, c3, n3))"
  using assms by (subst access.simps, cases op) (simp_all add: Let_def)

lemma nat_pow2:
  fixes n :: nat
  shows "0 < n \<Longrightarrow> n AND (n - 1) = 0 \<Longrightarrow> \<exists>k. n = 2 ^ k"
proof (induction n rule: less_induct)
  case (less n)
  show ?case
  proof (cases "even n")
    case True
    then obtain m where m: "n = 2 * m" by (auto elim: evenE)
    with less.prems have mpos: "0 < m" by simp
    have d: "(n - 1) div 2 = m - 1" using m mpos by (cases m) auto
    have h: "n div 2 = m" using m by simp
    have "n AND (n - 1) = of_bool (odd n \<and> odd (n - 1)) + 2 * ((n div 2) AND ((n - 1) div 2))"
      by (rule and_nat_rec)
    then have "n AND (n - 1) = 2 * (m AND (m - 1))"
      unfolding h d using True by simp
    with less.prems have "m AND (m - 1) = 0" by simp
    moreover have "m < n" using m mpos by simp
    ultimately obtain k where "m = 2 ^ k" using less.IH mpos by blast
    then have "n = 2 ^ Suc k" using m by simp
    then show ?thesis by blast
  next
    case False
    then obtain m where m: "n = 2 * m + 1" by (auto elim: oddE)
    have h: "n div 2 = m" "(n - 1) div 2 = m" using m by simp_all
    have "n AND (n - 1) = of_bool (odd n \<and> odd (n - 1)) + 2 * ((n div 2) AND ((n - 1) div 2))"
      by (rule and_nat_rec)
    then have "n AND (n - 1) = 2 * (m AND m)"
      unfolding h using m by simp
    with less.prems have "m = 0" by simp
    then have "n = 2 ^ 0" using m by simp
    then show ?thesis by blast
  qed
qed

lemma word_pow2:
  fixes x :: u32
  assumes "x \<noteq> 0" "x AND (x - 1) = 0"
  shows "\<exists>k < 32. x = 2 ^ k"
proof -
  have pos: "0 < unat x" using assms(1) by (simp add: unat_gt_0)
  have "unat (x AND (x - 1)) = unat x AND (unat x - 1)"
    using assms(1) by (simp add: unsigned_and_eq unat_minus_one)
  with assms(2) have "unat x AND (unat x - 1) = 0" by simp
  with pos obtain k where k: "unat x = 2 ^ k" using nat_pow2 by blast
  have "unat x < 2 ^ LENGTH(32)" by (rule unsigned_less)
  with k have "(2::nat) ^ k < 2 ^ LENGTH(32)" by simp
  then have "k < LENGTH(32)" by (rule power_less_imp_less_exp [rotated]) simp
  then have k32: "k < 32" by simp
  have "x = of_nat (unat x)" by simp
  also have "\<dots> = 2 ^ k" unfolding k by simp
  finally show ?thesis using k32 by blast
qed

lemma unat_pow2_u32: "n < 32 \<Longrightarrow> unat ((2::u32) ^ n) = 2 ^ n"
proof -
  assume n: "n < 32"
  have "(2::nat) ^ n < 2 ^ LENGTH(32)" using n by (intro power_strict_increasing) simp_all
  moreover have "(2::u32) ^ n = of_nat (2 ^ n)" by simp
  ultimately show ?thesis by (simp only: unat_of_nat mod_less)
qed

lemma pow2_less_u32: "n < 32 \<Longrightarrow> k < 32 \<Longrightarrow> ((2::u32) ^ n < 2 ^ k) = (n < k)"
  by (simp add: word_less_nat_alt unat_pow2_u32)

lemma ilog2_loop_pow2: "k < 32 \<Longrightarrow> n \<le> k \<Longrightarrow> ilog2_loop (2 ^ k) n = k"
proof (induction "k - n" arbitrary: n)
  case 0
  then have "n = k" by simp
  then show ?case using 0 by (subst ilog2_loop.simps) (simp add: push_bit_of_1)
next
  case (Suc d)
  then have lt: "n < k" by simp
  then have c: "n < 32 \<and> (push_bit n 1 :: u32) < 2 ^ k"
    using Suc.prems by (simp add: push_bit_of_1 pow2_less_u32)
  have "ilog2_loop (2 ^ k) n = ilog2_loop (2 ^ k) (n + 1)"
    using c by (subst ilog2_loop.simps) simp
  also have "\<dots> = k" using Suc lt by (intro Suc.hyps(1)) auto
  finally show ?case .
qed

lemma ilog2_uint32_Some:
  assumes "ilog2_uint32 x = Some n"
  shows "unat n < 32 \<and> x = 2 ^ unat n"
proof -
  from assms have nz: "x \<noteq> 0" and p: "x AND (x - 1) = 0" and n: "n = of_nat (ilog2_loop x 0)"
    by (auto simp: ilog2_uint32_def split: if_splits)
  from word_pow2 [OF nz p] obtain k where k: "k < 32" "x = 2 ^ k" by blast
  then have "ilog2_loop x 0 = k" using ilog2_loop_pow2 [of k 0] by simp
  then have "unat n = k" using n k(1) by (simp add: unat_of_nat)
  with k show ?thesis by simp
qed

lemma ilog2_uint32_None: "ilog2_uint32 0 = None"
  by (simp add: ilog2_uint32_def)

lemma init_ages_spec:
  "length (init_ages ls w) = length ls \<and>
   (\<forall>j < length ls. init_ages ls w ! j = (if w \<le> j then (ls ! j)\<lparr>lru_age := of_nat j\<rparr> else ls ! j))"
proof (induction ls w rule: init_ages.induct)
  case (1 ls w)
  show ?case
  proof (cases "w < length ls")
    case False
    then show ?thesis by (subst (1 2) init_ages.simps) simp
  next
    case True
    have eq: "init_ages ls w = init_ages (ls[w := (ls ! w)\<lparr>lru_age := of_nat w\<rparr>]) (w + 1)"
      using True by (subst init_ages.simps) simp
    have ih: "length (init_ages ls w) = length ls"
      "\<And>j. j < length ls \<Longrightarrow> init_ages ls w ! j =
         (if Suc w \<le> j then (ls[w := (ls ! w)\<lparr>lru_age := of_nat w\<rparr>] ! j)\<lparr>lru_age := of_nat j\<rparr>
          else ls[w := (ls ! w)\<lparr>lru_age := of_nat w\<rparr>] ! j)"
      using 1 [OF True] unfolding eq by simp_all
    have "init_ages ls w ! j = (if w \<le> j then (ls ! j)\<lparr>lru_age := of_nat j\<rparr> else ls ! j)"
      if "j < length ls" for j
    proof (cases "j = w")
      case True
      then show ?thesis using ih(2) [OF that] that by simp
    next
      case False
      then show ?thesis using ih(2) [OF that] that by (auto simp: nth_list_update)
    qed
    with ih(1) show ?thesis by blast
  qed
qed

lemma init_ages_fresh:
  "init_ages (replicate n Line_default) 0 =
   map (\<lambda>j. \<lparr>valid = False, dirty = False, tag = 0, lru_age = of_nat j\<rparr>) [0..<n]"
  by (rule nth_equalityI) (simp_all add: init_ages_spec Line_default_def)

lemma unat_ucast_le: "unat (ucast (x :: u64) :: u32) \<le> unat x"
  by (simp add: unsigned_ucast_eq take_bit_eq_mod)

lemma Cache_ctor_Some:
  assumes "Cache_ctor conf = Some c"
  shows "cfg c = conf" and "stats c = AccessStats_ctor"
    and "unat (off_bits c) < 32" and "unat (idx_bits c) < 32"
    and "idx_mask c = mask (unat (idx_bits c))"
    and "2 ^ unat (idx_bits c) \<le> unat (sets c)"
    and "0 < unat (assoc conf)" and "unat (assoc conf) < 2 ^ 32"
    and "sets_vec c =
           replicate (unat (sets c))
             (map (\<lambda>j. \<lparr>valid = False, dirty = False, tag = 0, lru_age = of_nat j\<rparr>)
                  [0..<unat (assoc conf)])"
proof -
  let ?c0 = "\<lparr>cfg = conf, stats = AccessStats_ctor, sets = 0, off_bits = 0,
              idx_bits = 0, idx_mask = 0, sets_vec = []\<rparr>"
  from assms obtain g where g: "compute_geometry ?c0 = Some g" and i: "init_storage g = Some c"
    by (auto simp: Cache_ctor_def split: option.splits)
  let ?n = "size_bytes conf div (assoc conf * block_bytes conf)"
  from g obtain ob ib where apos: "0 < assoc conf"
    and ob: "ilog2_uint32 (ucast (block_bytes conf)) = Some ob"
    and ib: "ilog2_uint32 (ucast ?n) = Some ib"
    and gd: "g = ?c0\<lparr>sets := ?n, off_bits := ob, idx_bits := ib,
                 idx_mask := (if ib = 64 then NOT 0 else push_bit (unat ib) 1 - 1)\<rparr>"
    by (auto simp: compute_geometry_def Let_def split: if_splits option.splits)
  from ilog2_uint32_Some [OF ob] have ob32: "unat ob < 32" by simp
  from ilog2_uint32_Some [OF ib] have ib32: "unat ib < 32" and ibp: "(ucast ?n :: u32) = 2 ^ unat ib"
    by simp_all
  have ib64: "ib \<noteq> 64" using ib32 by auto
  have "unat (ucast ?n :: u32) = 2 ^ unat ib" unfolding ibp using ib32 by (rule unat_pow2_u32)
  then have le: "2 ^ unat ib \<le> unat ?n" using unat_ucast_le [of ?n] by simp
  then have npos: "0 < unat ?n" by (metis gr0I not_one_le_zero one_le_numeral one_le_power order_trans zero_less_one)
  have gs: "sets g = ?n" "cfg g = conf" "stats g = AccessStats_ctor" "off_bits g = ob" "idx_bits g = ib"
    "idx_mask g = mask (unat ib)"
    using ib64 by (simp_all add: gd push_bit_of_1 mask_eq_exp_minus_1)
  from i npos gs have a32: "unat (assoc conf) < 2 ^ 32"
    by (auto simp: init_storage_def split: if_splits)
  from i have cd: "c = g\<lparr>sets_vec := map (\<lambda>ls. init_ages ls 0)
               (replicate (unat (sets g)) (replicate (unat (assoc (cfg g))) Line_default))\<rparr>"
    by (auto simp: init_storage_def split: if_splits)
  show "cfg c = conf" "stats c = AccessStats_ctor" by (simp_all add: cd gs)
  show "unat (off_bits c) < 32" "unat (idx_bits c) < 32" by (simp_all add: cd gs ob32 ib32)
  show "idx_mask c = mask (unat (idx_bits c))" by (simp add: cd gs)
  show "2 ^ unat (idx_bits c) \<le> unat (sets c)" using le by (simp add: cd gs)
  show "0 < unat (assoc conf)" using apos by (simp add: word_less_nat_alt)
  show "unat (assoc conf) < 2 ^ 32" by (rule a32)
  show "sets_vec c = replicate (unat (sets c))
             (map (\<lambda>j. \<lparr>valid = False, dirty = False, tag = 0, lru_age = of_nat j\<rparr>)
                  [0..<unat (assoc conf)])"
    by (simp add: cd gs init_ages_fresh)
qed

lemma access_frame:
  "cfg (fst (snd (access op addr c nl))) = cfg c"
  "sets (fst (snd (access op addr c nl))) = sets c"
  "off_bits (fst (snd (access op addr c nl))) = off_bits c"
  "idx_bits (fst (snd (access op addr c nl))) = idx_bits c"
  "idx_mask (fst (snd (access op addr c nl))) = idx_mask c"
proof -
  show "cfg (fst (snd (access op addr c nl))) = cfg c"
    by (cases "0 \<le> find_way c (index_of c addr) (tag_of c addr)"; cases nl)
       (simp_all add: access_hit access_miss allocate_on_miss_None allocate_on_miss_Some Let_def)
  show "sets (fst (snd (access op addr c nl))) = sets c"
    by (cases "0 \<le> find_way c (index_of c addr) (tag_of c addr)"; cases nl)
       (simp_all add: access_hit access_miss allocate_on_miss_None allocate_on_miss_Some Let_def)
  show "off_bits (fst (snd (access op addr c nl))) = off_bits c"
    by (cases "0 \<le> find_way c (index_of c addr) (tag_of c addr)"; cases nl)
       (simp_all add: access_hit access_miss allocate_on_miss_None allocate_on_miss_Some Let_def)
  show "idx_bits (fst (snd (access op addr c nl))) = idx_bits c"
    by (cases "0 \<le> find_way c (index_of c addr) (tag_of c addr)"; cases nl)
       (simp_all add: access_hit access_miss allocate_on_miss_None allocate_on_miss_Some Let_def)
  show "idx_mask (fst (snd (access op addr c nl))) = idx_mask c"
    by (cases "0 \<le> find_way c (index_of c addr) (tag_of c addr)"; cases nl)
       (simp_all add: access_hit access_miss allocate_on_miss_None allocate_on_miss_Some Let_def)
qed

lemma sets_vec_access:
  "sets_vec (fst (snd (access op addr c nl))) =
   (sets_vec c)[unat (index_of c addr) :=
      lines_after op (tag_of c addr) (sets_vec c ! unat (index_of c addr))]"
proof (cases "0 \<le> find_way c (index_of c addr) (tag_of c addr)")
  case True
  then show ?thesis
    by (cases "unat (index_of c addr) < length (sets_vec c)")
       (simp_all add: access_hit lines_after_def find_way_def sets_vec_touch_as_mru list_update_beyond not_less)
next
  case False
  then have miss: "find_way c (index_of c addr) (tag_of c addr) < 0" by simp
  show ?thesis
    using False
    by (cases "unat (index_of c addr) < length (sets_vec c)"; cases nl)
       (simp_all add: access_miss [OF miss] allocate_on_miss_None allocate_on_miss_Some Let_def
          lines_after_def find_way_def choose_victim_way_def fill_line_def touch_as_mru_def
          list_update_beyond not_less)
qed

lemma nth_update_keeps:
  "f x = f (ls ! w) \<Longrightarrow> f (ls[w := x] ! j) = f (ls ! j)"
  by (cases "w < length ls") (auto simp: nth_list_update list_update_beyond not_less)

lemma touch_lines_fields:
  "j < length ls \<Longrightarrow> valid (touch_lines ls way ! j) = valid (ls ! j)"
  "j < length ls \<Longrightarrow> tag (touch_lines ls way ! j) = tag (ls ! j)"
  "j < length ls \<Longrightarrow> dirty (touch_lines ls way ! j) = dirty (ls ! j)"
  by (simp_all add: touch_lines_nth)

lemma touch_lines_age:
  "j < length ls \<Longrightarrow>
   lru_age (touch_lines ls way ! j) =
     (if j = nat way then 0 else if valid (ls ! j) then lru_age (ls ! j) + 1 else lru_age (ls ! j))"
  by (simp add: touch_lines_nth age_valid_def)

lemma length_lines_after [simp]: "length (lines_after op t ls) = length ls"
  by (simp add: lines_after_def)

lemma lines_after_degenerate:
  "int_size ls \<le> 0 \<Longrightarrow>
   lines_after op t ls =
   touch_lines (ls[0 := (ls ! 0)\<lparr>valid := True, dirty := (op = Write), tag := t\<rparr>]) 0"
  by (simp add: lines_after_def find_way_loop_end choose_victim_loop_end)

lemma only_way0_lines_after:
  "int_size ls \<le> 0 \<Longrightarrow> only_way0 ls \<Longrightarrow> only_way0 (lines_after op t ls)"
  by (simp add: lines_after_degenerate only_way0_def touch_lines_fields)

lemma only_way0_distinct: "only_way0 ls \<Longrightarrow> tags_distinct ls \<and> ages_distinct ls"
  unfolding only_way0_def tags_distinct_def ages_distinct_def
  by (metis gr0I)

text \<open>Where the victim lies, in the regular case.\<close>

lemma victim_in_range:
  assumes "int_size ls = int (length ls)" "0 < length ls"
  shows "0 \<le> choose_victim_loop ls 0 0 0 \<and> nat (choose_victim_loop ls 0 0 0) < length ls"
proof (cases "\<exists>j. j < length ls \<and> \<not> valid (ls ! j)")
  case True
  then have "\<exists>j. nat 0 \<le> j \<and> j < length ls \<and> \<not> valid (ls ! j)" by simp
  from choose_victim_loop_invalid [OF assms(1) _ this, of 0 0] show ?thesis by simp
next
  case False
  then have "\<forall>j. nat 0 \<le> j \<and> j < length ls \<longrightarrow> valid (ls ! j)" by simp
  from choose_victim_loop_valid [OF assms(1) _ this, of 0 0] assms(2) show ?thesis
    by auto
qed

lemma tags_distinct_lines_after:
  assumes reg: "int_size ls = int (length ls)" and ne: "0 < length ls" and d: "tags_distinct ls"
  shows "tags_distinct (lines_after op t ls)"
proof (cases "0 \<le> find_way_loop ls t 0")
  case True
  have "valid (lines_after op t ls ! j) = valid (ls ! j) \<and> tag (lines_after op t ls ! j) = tag (ls ! j)"
    if "j < length ls" for j
    using that True by (simp add: lines_after_def touch_lines_fields nth_update_keeps)
  with d show ?thesis by (simp add: tags_distinct_def)
next
  case False
  then have "find_way_loop ls t 0 < 0" by simp
  from find_way_loop_miss [OF reg _ this]
  have miss: "\<And>j. j < length ls \<Longrightarrow> \<not> (valid (ls ! j) \<and> tag (ls ! j) = t)" by simp
  define v where "v = nat (choose_victim_loop ls 0 0 0)"
  have v: "v < length ls" and vn: "0 \<le> choose_victim_loop ls 0 0 0"
    using victim_in_range [OF reg ne] by (simp_all add: v_def)
  have f: "valid (lines_after op t ls ! j) = (if j = v then True else valid (ls ! j)) \<and>
           tag (lines_after op t ls ! j) = (if j = v then t else tag (ls ! j))"
    if "j < length ls" for j
    using that False v by (simp add: lines_after_def touch_lines_fields nth_list_update v_def)
  show ?thesis
    unfolding tags_distinct_def
  proof (intro allI impI)
    fix i j assume i: "i < length (lines_after op t ls)" and j: "j < length (lines_after op t ls)"
      and h: "i \<noteq> j \<and> valid (lines_after op t ls ! i) \<and> valid (lines_after op t ls ! j)"
    from i j have i': "i < length ls" and j': "j < length ls" by simp_all
    show "tag (lines_after op t ls ! i) \<noteq> tag (lines_after op t ls ! j)"
    proof (cases "i = v")
      case True
      with h have "j \<noteq> v" by simp
      with h f [OF j'] have "valid (ls ! j)" by simp
      with miss [OF j'] have "tag (ls ! j) \<noteq> t" by simp
      then show ?thesis using f [OF i'] f [OF j'] True \<open>j \<noteq> v\<close> by simp
    next
      case iv: False
      with h f [OF i'] have vi: "valid (ls ! i)" by simp
      show ?thesis
      proof (cases "j = v")
        case True
        from miss [OF i'] vi have "tag (ls ! i) \<noteq> t" by simp
        then show ?thesis using f [OF i'] f [OF j'] True iv by simp
      next
        case jv: False
        with h f [OF j'] have "valid (ls ! j)" by simp
        with d vi h i' j' have "tag (ls ! i) \<noteq> tag (ls ! j)" by (simp add: tags_distinct_def)
        then show ?thesis using f [OF i'] f [OF j'] iv jv by simp
      qed
    qed
  qed
qed

lemma int_size_large:
  assumes "2 ^ 31 \<le> length xs" "length xs < 2 ^ 32"
  shows "int_size xs \<le> 0"
proof -
  define k where "k = int (length xs)"
  have k: "2147483648 \<le> k" "k < 4294967296" using assms by (simp_all add: k_def)
  have "k + 2147483648 = (k - 2147483648) + 4294967296" by simp
  then have "(k + 2147483648) mod 4294967296 = (k - 2147483648 + 4294967296) mod 4294967296"
    by (rule arg_cong)
  also have "\<dots> = (k - 2147483648) mod 4294967296" by (rule mod_add_self2)
  also have "\<dots> = k - 2147483648" using k by (intro mod_pos_pos_trivial) simp_all
  finally have m: "(k + 2147483648) mod 4294967296 = k - 2147483648" .
  have "signed_take_bit 31 k = take_bit (Suc 31) (k + 2 ^ 31) - 2 ^ 31"
    by (rule signed_take_bit_eq_take_bit_shift)
  also have "\<dots> = (k + 2147483648) mod 4294967296 - 2147483648"
    by (simp add: take_bit_eq_mod)
  finally have "signed_take_bit 31 k = k - 4294967296" using m by simp
  then show ?thesis using k by (simp add: int_size_def signed_of_nat k_def)
qed

lemma int_size_cases:
  "length xs < 2 ^ 32 \<Longrightarrow> int_size xs = int (length xs) \<or> int_size xs \<le> 0"
  using int_size_small [of xs] int_size_large [of xs] by (cases "length xs < 2 ^ 31") auto

lemma index_ok_less: "index_ok c \<Longrightarrow> unat (index_of c addr) < length (sets_vec c)"
proof -
  assume g: "index_ok c"
  then have m: "idx_mask c = mask (unat (idx_bits c))"
    and le: "2 ^ unat (idx_bits c) \<le> length (sets_vec c)"
    by (simp_all add: index_ok_def)
  have "unat (index_of c addr) < 2 ^ unat (idx_bits c)"
    unfolding index_of_def m
    by (simp add: take_bit_eq_mask [symmetric] unsigned_take_bit_eq)
  then show ?thesis using le by simp
qed

lemma index_ok_access: "index_ok c \<Longrightarrow> index_ok (fst (snd (access op addr c nl)))"
proof -
  assume ok: "index_ok c"
  let ?i = "unat (index_of c addr)"
  let ?c = "fst (snd (access op addr c nl))"
  have i: "?i < length (sets_vec c)" using ok by (rule index_ok_less)
  then have mem: "sets_vec c ! ?i \<in> set (sets_vec c)" by simp
  have all: "\<forall>ls \<in> set (sets_vec c). 0 < length ls \<and> length ls < 2 ^ 32"
    using ok by (simp add: index_ok_def)
  have len: "length (sets_vec ?c) = length (sets_vec c)" by (simp add: sets_vec_access)
  have "0 < length ls \<and> length ls < 2 ^ 32" if "ls \<in> set (sets_vec ?c)" for ls
  proof -
    from that have "ls \<in> insert (lines_after op (tag_of c addr) (sets_vec c ! ?i)) (set (sets_vec c))"
      unfolding sets_vec_access by (rule set_update_subset_insert [THEN subsetD])
    then consider "ls = lines_after op (tag_of c addr) (sets_vec c ! ?i)" | "ls \<in> set (sets_vec c)"
      by blast
    then show ?thesis
    proof cases
      case 1
      then have "length ls = length (sets_vec c ! ?i)" by simp
      then show ?thesis using bspec [OF all mem] by simp
    next
      case 2
      then show ?thesis by (rule bspec [OF all])
    qed
  qed
  then show ?thesis using ok len by (simp add: index_ok_def access_frame)
qed

lemma index_ok_ctor: "Cache_ctor conf = Some c \<Longrightarrow> index_ok c"
  using Cache_ctor_Some [of conf c] by (auto simp: index_ok_def)

text \<open>An invariant of every set that holds along any sequence of calls.\<close>

lemma calls_append: "calls c (xs @ ys) = calls (calls c xs) ys"
  by (induction xs arbitrary: c) auto

lemma calls_invariant:
  assumes "P c" and "\<And>c op addr nl. P c \<Longrightarrow> P (fst (snd (access op addr c nl)))"
  shows "P (calls c xs)"
  using assms(1)
proof (induction xs arbitrary: c)
  case Nil
  then show ?case by simp
next
  case (Cons x xs)
  obtain op addr nl where x: "x = (op, addr, nl)" by (cases x) auto
  have "P (fst (snd (access op addr c nl)))" using Cons.prems by (rule assms(2))
  then show ?case unfolding x by (simp add: Cons.IH)
qed

lemma int_size_lines_after [simp]: "int_size (lines_after op t ls) = int_size ls"
  by (simp add: int_size_def)

lemma set_tags_ok_lines_after:
  "0 < length ls \<Longrightarrow> set_tags_ok ls \<Longrightarrow> set_tags_ok (lines_after op t ls)"
  unfolding set_tags_ok_def
  by (auto intro: tags_distinct_lines_after only_way0_lines_after)

lemma tags_inv_access:
  assumes "tags_inv c"
  shows "tags_inv (fst (snd (access op addr c nl)))"
proof -
  from assms have ok: "index_ok c" and all: "\<forall>ls \<in> set (sets_vec c). set_tags_ok ls"
    by (simp_all add: tags_inv_def)
  let ?i = "unat (index_of c addr)"
  have i: "?i < length (sets_vec c)" using ok by (rule index_ok_less)
  then have mem: "sets_vec c ! ?i \<in> set (sets_vec c)" by simp
  then have "0 < length (sets_vec c ! ?i)" using ok by (simp add: index_ok_def)
  with all mem have new: "set_tags_ok (lines_after op (tag_of c addr) (sets_vec c ! ?i))"
    by (intro set_tags_ok_lines_after) auto
  have "set_tags_ok ls" if "ls \<in> set (sets_vec (fst (snd (access op addr c nl))))" for ls
  proof -
    from that have "ls \<in> insert (lines_after op (tag_of c addr) (sets_vec c ! ?i)) (set (sets_vec c))"
      unfolding sets_vec_access by (rule set_update_subset_insert [THEN subsetD])
    then show ?thesis using new all by blast
  qed
  then have "\<forall>ls \<in> set (sets_vec (fst (snd (access op addr c nl)))). set_tags_ok ls" by blast
  with index_ok_access [OF ok] show ?thesis by (simp add: tags_inv_def)
qed

lemma tags_inv_ctor:
  assumes "Cache_ctor conf = Some c"
  shows "tags_inv c"
proof -
  note f = Cache_ctor_Some [OF assms]
  let ?ls = "map (\<lambda>j. \<lparr>valid = False, dirty = False, tag = 0, lru_age = of_nat j\<rparr>) [0..<unat (assoc conf)]"
  have "length ?ls < 2 ^ 32" using f(8) by simp
  from int_size_cases [OF this] have "set_tags_ok ?ls"
    by (auto simp: set_tags_ok_def tags_distinct_def only_way0_def)
  then have "\<forall>ls \<in> set (sets_vec c). set_tags_ok ls" by (simp add: f(9))
  with index_ok_ctor [OF assms] show ?thesis by (simp add: tags_inv_def)
qed

lemma set_tags_ok_distinct: "set_tags_ok ls \<Longrightarrow> tags_distinct ls"
  by (auto simp: set_tags_ok_def dest: only_way0_distinct)

text \<open>The example cache is what the constructor builds.\<close>

lemma replicate_two: "replicate 2 x = [x, x]"
  by (simp add: numeral_2_eq_2)

lemma ilog2_16: "ilog2_uint32 16 = Some 4"
  by (simp add: ilog2_uint32_def ilog2_loop.simps)

lemma ilog2_2: "ilog2_uint32 2 = Some 1"
  by (simp add: ilog2_uint32_def ilog2_loop.simps)

lemma init_ages_two: "init_ages [a, b] 0 = [a\<lparr>lru_age := 0\<rparr>, b\<lparr>lru_age := 1\<rparr>]"
  by (simp add: init_ages.simps)

lemma demo_ctor: "Cache_ctor demo_cfg = Some demo_l1"
  by (simp add: Cache_ctor_def compute_geometry_def Let_def ilog2_16 ilog2_2
        init_storage_def init_ages_two AccessStats_ctor_def Line_default_def demo_cfg_def
        demo_l1_def fresh_line_def replicate_two)

lemma index_ok_calls: "index_ok c \<Longrightarrow> index_ok (calls c xs)"
  by (rule calls_invariant) (auto intro: index_ok_access)

lemma sets_nonempty: "index_ok c \<Longrightarrow> 0 < length (sets_vec c)"
proof -
  assume "index_ok c"
  then have "2 ^ unat (idx_bits c) \<le> length (sets_vec c)" by (simp add: index_ok_def)
  moreover have "(0::nat) < 2 ^ unat (idx_bits c)" by simp
  ultimately show ?thesis by linarith
qed

lemma geom_ok_set:
  assumes "geom_ok c" "i < length (sets_vec c)"
  shows "0 < length (sets_vec c ! i)" "int_size (sets_vec c ! i) = int (length (sets_vec c ! i))"
proof -
  from assms(2) have mem: "sets_vec c ! i \<in> set (sets_vec c)" by simp
  from assms(1) have "index_ok c" and small: "\<forall>ls \<in> set (sets_vec c). length ls < 2 ^ 31"
    by (simp_all add: geom_ok_def)
  then have "\<forall>ls \<in> set (sets_vec c). 0 < length ls" by (simp add: index_ok_def)
  with mem show "0 < length (sets_vec c ! i)" by blast
  from small mem have "length (sets_vec c ! i) < 2 ^ 31" by blast
  then show "int_size (sets_vec c ! i) = int (length (sets_vec c ! i))" by (rule int_size_small)
qed

lemma geom_ok_index: "geom_ok c \<Longrightarrow> unat (index_of c addr) < length (sets_vec c)"
  by (simp add: geom_ok_def index_ok_less)

text \<open>Evaluating the example states.\<close>

lemmas demo_defs = demo_l1_def demo_full_def demo_cfg_def fresh_line_def AccessStats_ctor_def

lemmas step_defs = index_of_def tag_of_def block_aligned_def int_size_def find_way_def
  find_way_loop.simps choose_victim_way_def choose_victim_loop.simps age_valid_def
  touch_lines_def touch_as_mru_def fill_line_def victim_block_addr_def Let_def


lemma geom_ok_demo_full: "geom_ok demo_full"
  by (simp add: geom_ok_def index_ok_def demo_defs)

lemma demo_index: "index_of demo_l1 0x100 = 0" "index_of demo_full 0x300 = 0" "index_of demo_full 0x200 = 0"
  "tag_of demo_l1 0x100 = 8" "tag_of demo_full 0x300 = 24" "tag_of demo_full 0x200 = 16"
  by (simp_all add: demo_defs index_of_def tag_of_def)

lemma demo_find: "find_way demo_l1 0 8 = - 1" "find_way demo_full 0 24 = - 1" "find_way demo_full 0 16 = 1"
  by (simp_all add: demo_defs step_defs)

lemma demo_victim: "choose_victim_way demo_l1 0 = 0" "choose_victim_way demo_full 0 = 0"
  by (simp_all add: demo_defs step_defs)

lemma demo_one_facts:
  "index_of demo_one 0x200 = 0" "tag_of demo_one 0x200 = 16"
  "find_way demo_one 0 16 = - 1" "choose_victim_way demo_one 0 = 1"
  by (simp_all add: demo_one_def demo_defs step_defs)

lemma demo_step1: "fst (snd (access Write 0x100 demo_l1 None)) = demo_one"
  apply (simp add: access_miss demo_index demo_find allocate_on_miss_None demo_victim Let_def)
  apply (simp add: demo_one_def demo_defs step_defs)
  done

lemma demo_step2: "fst (snd (access Read 0x200 demo_one None)) = demo_full"
  apply (simp add: access_miss demo_one_facts allocate_on_miss_None Let_def)
  apply (simp add: demo_one_def demo_defs step_defs)
  done

lemma demo_full_reached: "calls demo_l1 [(Write, 0x100, None), (Read, 0x200, None)] = demo_full"
  by (simp add: demo_step1 demo_step2)

text \<open>The result of access, and what the hit test means.\<close>

lemma access_fst:
  "fst (access op addr c nl) = (0 \<le> find_way c (index_of c addr) (tag_of c addr))"
proof (cases "0 \<le> find_way c (index_of c addr) (tag_of c addr)")
  case True
  then show ?thesis by (simp add: access_hit)
next
  case False
  then have "find_way c (index_of c addr) (tag_of c addr) < 0" by simp
  then show ?thesis by (simp add: access_miss split: prod.splits)
qed

lemma access_no_next: "snd (snd (access op addr c None)) = None"
proof (cases "0 \<le> find_way c (index_of c addr) (tag_of c addr)")
  case True
  then show ?thesis by (simp add: access_hit)
next
  case False
  then have "find_way c (index_of c addr) (tag_of c addr) < 0" by simp
  then show ?thesis by (simp add: access_miss allocate_on_miss_None Let_def)
qed


lemma stats_access_hit:
  assumes "0 \<le> find_way c (index_of c addr) (tag_of c addr)"
  shows "stats (fst (snd (access op addr c nl))) =
     (if op = Read then (stats c)\<lparr>reads := reads (stats c) + 1\<rparr>
      else (stats c)\<lparr>writes := writes (stats c) + 1\<rparr>)"
  using assms by (cases op) (simp_all add: access_hit)


text \<open>The rebuilt victim address has its offset bits clear.\<close>

lemma victim_block_addr_aligned:
  assumes "unat (off_bits c) < 32" "unat (idx_bits c) < 32"
  shows "take_bit (unat (off_bits c)) (victim_block_addr c si ln) = 0"
proof -
  have "unat (idx_bits c + off_bits c) = unat (idx_bits c) + unat (off_bits c)"
    using assms by (intro unat_add_lem [THEN iffD1]) simp
  then have le: "unat (off_bits c) \<le> unat (idx_bits c + off_bits c)" by simp
  show ?thesis
    unfolding victim_block_addr_def
    by (rule bit_word_eqI) (use le in \<open>auto simp: bit_simps\<close>)
qed

text \<open>The counters and the next level after a miss.\<close>

lemma access_miss_effects:
  assumes "\<not> fst (access op addr c nl)"
  shows "writebacks (stats (fst (snd (access op addr c nl)))) =
           writebacks (stats c) +
           (if valid (sets_vec c ! unat (index_of c addr) ! nat (choose_victim_way c (index_of c addr))) \<and>
               dirty (sets_vec c ! unat (index_of c addr) ! nat (choose_victim_way c (index_of c addr)))
            then 1 else 0)"
    and "memory_writes (stats (fst (snd (access op addr c nl)))) =
           memory_writes (stats c) +
           (if valid (sets_vec c ! unat (index_of c addr) ! nat (choose_victim_way c (index_of c addr))) \<and>
               dirty (sets_vec c ! unat (index_of c addr) ! nat (choose_victim_way c (index_of c addr))) \<and>
               nl = None
            then 1 else 0)"
    and "memory_reads (stats (fst (snd (access op addr c nl)))) =
           memory_reads (stats c) + (if nl = None then 1 else 0)"
    and "snd (snd (access op addr c nl)) =
           (case nl of None \<Rightarrow> None
            | Some n \<Rightarrow>
                Some (fst (snd (access Read (block_aligned c addr)
                  (if valid (sets_vec c ! unat (index_of c addr) ! nat (choose_victim_way c (index_of c addr))) \<and>
                      dirty (sets_vec c ! unat (index_of c addr) ! nat (choose_victim_way c (index_of c addr)))
                   then fst (snd (access Write
                          (victim_block_addr c (index_of c addr)
                             (sets_vec c ! unat (index_of c addr) ! nat (choose_victim_way c (index_of c addr))))
                          n None))
                   else n) None))))"
proof -
  from assms have miss: "find_way c (index_of c addr) (tag_of c addr) < 0"
    by (simp add: access_fst)
  show "writebacks (stats (fst (snd (access op addr c nl)))) =
           writebacks (stats c) +
           (if valid (sets_vec c ! unat (index_of c addr) ! nat (choose_victim_way c (index_of c addr))) \<and>
               dirty (sets_vec c ! unat (index_of c addr) ! nat (choose_victim_way c (index_of c addr)))
            then 1 else 0)"
    by (cases nl; cases op)
       (simp_all add: access_miss [OF miss] allocate_on_miss_None allocate_on_miss_Some Let_def)
  show "memory_writes (stats (fst (snd (access op addr c nl)))) =
           memory_writes (stats c) +
           (if valid (sets_vec c ! unat (index_of c addr) ! nat (choose_victim_way c (index_of c addr))) \<and>
               dirty (sets_vec c ! unat (index_of c addr) ! nat (choose_victim_way c (index_of c addr))) \<and>
               nl = None
            then 1 else 0)"
    by (cases nl; cases op)
       (simp_all add: access_miss [OF miss] allocate_on_miss_None allocate_on_miss_Some Let_def)
  show "memory_reads (stats (fst (snd (access op addr c nl)))) =
           memory_reads (stats c) + (if nl = None then 1 else 0)"
    by (cases nl; cases op)
       (simp_all add: access_miss [OF miss] allocate_on_miss_None allocate_on_miss_Some Let_def)
  show "snd (snd (access op addr c nl)) =
           (case nl of None \<Rightarrow> None
            | Some n \<Rightarrow>
                Some (fst (snd (access Read (block_aligned c addr)
                  (if valid (sets_vec c ! unat (index_of c addr) ! nat (choose_victim_way c (index_of c addr))) \<and>
                      dirty (sets_vec c ! unat (index_of c addr) ! nat (choose_victim_way c (index_of c addr)))
                   then fst (snd (access Write
                          (victim_block_addr c (index_of c addr)
                             (sets_vec c ! unat (index_of c addr) ! nat (choose_victim_way c (index_of c addr))))
                          n None))
                   else n) None))))"
    by (cases nl; cases op)
       (simp_all add: access_miss [OF miss] allocate_on_miss_None allocate_on_miss_Some Let_def)
qed

text \<open>Hitting the newer line of the full example set again and again.\<close>

lemma hot_step:
  assumes "sets_vec c = [[\<lparr>valid = True, dirty = True, tag = 8, lru_age = a\<rparr>,
                         \<lparr>valid = True, dirty = False, tag = 16, lru_age = 0\<rparr>], s1]"
    and "off_bits c = 4" "idx_bits c = 1" "idx_mask c = 1"
  shows "sets_vec (fst (snd (access Read 0x200 c nl))) =
           [[\<lparr>valid = True, dirty = True, tag = 8, lru_age = a + 1\<rparr>,
             \<lparr>valid = True, dirty = False, tag = 16, lru_age = 0\<rparr>], s1]"
    and "reads (stats (fst (snd (access Read 0x200 c nl)))) = reads (stats c) + 1"
    and "writes (stats (fst (snd (access Read 0x200 c nl)))) = writes (stats c)"
proof -
  have i: "index_of c 0x200 = 0" and t: "tag_of c 0x200 = 16"
    by (simp_all add: index_of_def tag_of_def assms)
  have f: "find_way c 0 16 = 1"
    by (simp add: find_way_def assms find_way_loop.simps int_size_def)
  have h: "0 \<le> find_way c (index_of c 0x200) (tag_of c 0x200)" by (simp add: i t f)
  show "sets_vec (fst (snd (access Read 0x200 c nl))) =
           [[\<lparr>valid = True, dirty = True, tag = 8, lru_age = a + 1\<rparr>,
             \<lparr>valid = True, dirty = False, tag = 16, lru_age = 0\<rparr>], s1]"
    by (simp add: access_hit [OF h] i t f touch_as_mru_def touch_lines_def age_valid_def assms Let_def)
  show "reads (stats (fst (snd (access Read 0x200 c nl)))) = reads (stats c) + 1"
    by (simp add: stats_access_hit [OF h])
  show "writes (stats (fst (snd (access Read 0x200 c nl)))) = writes (stats c)"
    by (simp add: stats_access_hit [OF h])
qed

lemma hot_run:
  assumes "sets_vec c = [[\<lparr>valid = True, dirty = True, tag = 8, lru_age = a\<rparr>,
                         \<lparr>valid = True, dirty = False, tag = 16, lru_age = 0\<rparr>], s1]"
    and "off_bits c = 4" "idx_bits c = 1" "idx_mask c = 1"
  shows "sets_vec (calls c (replicate n (Read, 0x200, nl))) =
           [[\<lparr>valid = True, dirty = True, tag = 8, lru_age = a + of_nat n\<rparr>,
             \<lparr>valid = True, dirty = False, tag = 16, lru_age = 0\<rparr>], s1] \<and>
         reads (stats (calls c (replicate n (Read, 0x200, nl)))) = reads (stats c) + of_nat n \<and>
         writes (stats (calls c (replicate n (Read, 0x200, nl)))) = writes (stats c)"
  using assms
proof (induction n arbitrary: c a)
  case 0
  then show ?case by simp
next
  case (Suc n)
  let ?c = "fst (snd (access Read 0x200 c nl))"
  note s = hot_step [OF Suc.prems, of nl]
  have g: "off_bits ?c = 4" "idx_bits ?c = 1" "idx_mask ?c = 1"
    by (simp_all add: access_frame Suc.prems)
  from Suc.IH [OF s(1) g] show ?case by (simp add: s(2,3) add.assoc add.commute)
qed

lemma hot_trace_state:
  "sets_vec (calls demo_l1 (hot_trace n)) =
     [[\<lparr>valid = True, dirty = True, tag = 8, lru_age = 1 + of_nat n\<rparr>,
       \<lparr>valid = True, dirty = False, tag = 16, lru_age = 0\<rparr>],
      [fresh_line 0, fresh_line 1]]"
proof -
  have "calls demo_l1 (hot_trace n) = calls demo_full (replicate n (Read, 0x200, None))"
    unfolding hot_trace_def calls_append demo_full_reached ..
  moreover have "sets_vec demo_full =
     [[\<lparr>valid = True, dirty = True, tag = 8, lru_age = 1\<rparr>,
       \<lparr>valid = True, dirty = False, tag = 16, lru_age = 0\<rparr>],
      [fresh_line 0, fresh_line 1]]"
    and "off_bits demo_full = 4" "idx_bits demo_full = 1" "idx_mask demo_full = 1"
    by (simp_all add: demo_full_def)
  ultimately show ?thesis using hot_run [of demo_full 1 _ n None] by simp
qed

lemma aged_state_facts:
  "sets_vec aged_state =
     [[\<lparr>valid = True, dirty = True, tag = 8, lru_age = - 1\<rparr>,
       \<lparr>valid = True, dirty = False, tag = 16, lru_age = 0\<rparr>],
      [fresh_line 0, fresh_line 1]]"
  "off_bits aged_state = 4" "idx_bits aged_state = 1" "idx_mask aged_state = 1"
proof -
  have g: "off_bits (calls c xs) = off_bits c \<and> idx_bits (calls c xs) = idx_bits c \<and>
           idx_mask (calls c xs) = idx_mask c" for c xs
    by (induction xs arbitrary: c) (auto simp: access_frame)
  show "sets_vec aged_state =
     [[\<lparr>valid = True, dirty = True, tag = 8, lru_age = - 1\<rparr>,
       \<lparr>valid = True, dirty = False, tag = 16, lru_age = 0\<rparr>],
      [fresh_line 0, fresh_line 1]]"
    unfolding aged_state_def hot_trace_state by simp
  show "off_bits aged_state = 4" "idx_bits aged_state = 1" "idx_mask aged_state = 1"
    unfolding aged_state_def by (simp_all add: g demo_l1_def)
qed

text \<open>The way that access touches, and the ages after it.\<close>

lemma access_touched_set:
  assumes "geom_ok c"
  shows "\<exists>ls2. length ls2 = length (sets_vec c ! unat (index_of c addr)) \<and>
           (\<forall>j < length ls2. lru_age (ls2 ! j) = lru_age (sets_vec c ! unat (index_of c addr) ! j)) \<and>
           (\<forall>j < length ls2.
              j \<noteq> nat (if fst (access op addr c nl)
                         then find_way c (index_of c addr) (tag_of c addr)
                         else choose_victim_way c (index_of c addr)) \<longrightarrow>
              valid (ls2 ! j) = valid (sets_vec c ! unat (index_of c addr) ! j)) \<and>
           valid (ls2 ! nat (if fst (access op addr c nl)
                         then find_way c (index_of c addr) (tag_of c addr)
                         else choose_victim_way c (index_of c addr))) \<and>
           nat (if fst (access op addr c nl)
                then find_way c (index_of c addr) (tag_of c addr)
                else choose_victim_way c (index_of c addr)) < length ls2 \<and>
           sets_vec (fst (snd (access op addr c nl))) ! unat (index_of c addr) =
             touch_lines ls2 (if fst (access op addr c nl)
                              then find_way c (index_of c addr) (tag_of c addr)
                              else choose_victim_way c (index_of c addr))"
proof -
  define si where "si = index_of c addr"
  define t where "t = tag_of c addr"
  define ls where "ls = sets_vec c ! unat si"
  have i: "unat si < length (sets_vec c)" unfolding si_def using assms by (rule geom_ok_index)
  have ne: "0 < length ls" and reg: "int_size ls = int (length ls)"
    using geom_ok_set [OF assms i] by (simp_all add: ls_def)
  have fw: "find_way c si t = find_way_loop ls t 0" by (simp add: find_way_def ls_def)
  have cv: "choose_victim_way c si = choose_victim_loop ls 0 0 0"
    by (simp add: choose_victim_way_def ls_def)
  have res: "fst (access op addr c nl) = (0 \<le> find_way_loop ls t 0)"
    by (simp add: access_fst si_def t_def fw [unfolded si_def t_def])
  have after: "sets_vec (fst (snd (access op addr c nl))) ! unat si = lines_after op t ls"
    unfolding sets_vec_access using i by (simp add: si_def t_def ls_def)
  show ?thesis
  proof (cases "0 \<le> find_way_loop ls t 0")
    case True
    define w where "w = nat (find_way_loop ls t 0)"
    from find_way_loop_hit [OF reg _ True] have w: "w < length ls" "valid (ls ! w)"
      by (simp_all add: w_def)
    let ?ls2 = "if op = Write then ls[w := (ls ! w)\<lparr>dirty := True\<rparr>] else ls"
    have "length ?ls2 = length ls" by simp
    moreover have "\<forall>j < length ?ls2. lru_age (?ls2 ! j) = lru_age (ls ! j)"
      by (simp add: nth_update_keeps)
    moreover have "\<forall>j < length ?ls2. j \<noteq> w \<longrightarrow> valid (?ls2 ! j) = valid (ls ! j)"
      by (simp add: nth_update_keeps)
    moreover have "valid (?ls2 ! w)" using w by simp
    moreover have "w < length ?ls2" using w by simp
    moreover have "lines_after op t ls = touch_lines ?ls2 (find_way_loop ls t 0)"
      using True by (simp add: lines_after_def w_def)
    ultimately show ?thesis
      unfolding si_def [symmetric] t_def [symmetric] ls_def [symmetric] res fw after
      using True by (intro exI [of _ ?ls2]) (simp add: w_def)
  next
    case False
    define v where "v = nat (choose_victim_loop ls 0 0 0)"
    have v: "v < length ls" using victim_in_range [OF reg ne] by (simp add: v_def)
    let ?ls2 = "ls[v := (ls ! v)\<lparr>valid := True, dirty := (op = Write), tag := t\<rparr>]"
    have "length ?ls2 = length ls" by simp
    moreover have "\<forall>j < length ?ls2. lru_age (?ls2 ! j) = lru_age (ls ! j)"
      by (simp add: nth_update_keeps)
    moreover have "\<forall>j < length ?ls2. j \<noteq> v \<longrightarrow> valid (?ls2 ! j) = valid (ls ! j)"
      by simp
    moreover have "valid (?ls2 ! v)" using v by simp
    moreover have "v < length ?ls2" using v by simp
    moreover have "lines_after op t ls = touch_lines ?ls2 (choose_victim_loop ls 0 0 0)"
      using False by (simp add: lines_after_def v_def)
    ultimately show ?thesis
      unfolding si_def [symmetric] t_def [symmetric] ls_def [symmetric] res cv after
      using False by (intro exI [of _ ?ls2]) (simp add: v_def)
  qed
qed

lemma sets_vec_access_other:
  "k \<noteq> unat (index_of c addr) \<Longrightarrow>
   sets_vec (fst (snd (access op addr c nl))) ! k = sets_vec c ! k"
  by (simp add: sets_vec_access)

text \<open>Ages stay distinct while no age can wrap around.\<close>

lemma ages_touch:
  assumes len: "length ls2 = length ls" and m: "m < length ls" and vm: "valid (ls2 ! m)"
    and vals: "\<forall>j < length ls. j \<noteq> m \<longrightarrow> valid (ls2 ! j) = valid (ls ! j)"
    and ages: "\<forall>j < length ls. lru_age (ls2 ! j) = lru_age (ls ! j)"
    and d: "ages_distinct ls" and b: "ages_below n ls" and n: "n < 2 ^ 32"
  shows "ages_distinct (touch_lines ls2 (int m)) \<and> ages_below (Suc n) (touch_lines ls2 (int m))"
proof -
  let ?ls' = "touch_lines ls2 (int m)"
  have v': "valid (?ls' ! j) = (if j = m then True else valid (ls ! j))" if "j < length ls" for j
    using that len vm vals by (simp add: touch_lines_fields)
  have a': "lru_age (?ls' ! j) = (if j = m then 0 else if valid (ls ! j) then lru_age (ls ! j) + 1
                                  else lru_age (ls ! j))" if "j < length ls" for j
    using that len vals ages by (simp add: touch_lines_age)
  have small: "unat (lru_age (ls ! j)) < 2 ^ 32 - 1" if "j < length ls" "valid (ls ! j)" for j
  proof -
    from b that have "unat (lru_age (ls ! j)) < n" by (simp add: ages_below_def)
    with n show ?thesis by simp
  qed
  have below: "ages_below (Suc n) ?ls'"
    unfolding ages_below_def
  proof (intro allI impI)
    fix i assume i: "i < length ?ls'" and vi: "valid (?ls' ! i)"
    from i len have i': "i < length ls" by simp
    show "unat (lru_age (?ls' ! i)) < Suc n"
    proof (cases "i = m")
      case True
      then show ?thesis using a' [OF i'] by simp
    next
      case False
      with vi v' [OF i'] have vo: "valid (ls ! i)" by simp
      from b i' vo have "unat (lru_age (ls ! i)) < n" by (simp add: ages_below_def)
      moreover have "unat (lru_age (ls ! i) + 1) = unat (lru_age (ls ! i)) + 1"
        using small [OF i' vo] by (rule unat_succ32)
      ultimately show ?thesis using a' [OF i'] False vo by simp
    qed
  qed
  have dist: "ages_distinct ?ls'"
    unfolding ages_distinct_def
  proof (intro allI impI)
    fix i j assume i: "i < length ?ls'" and j: "j < length ?ls'"
      and h: "i \<noteq> j \<and> valid (?ls' ! i) \<and> valid (?ls' ! j)"
    from i j len have i': "i < length ls" and j': "j < length ls" by simp_all
    show "lru_age (?ls' ! i) \<noteq> lru_age (?ls' ! j)"
    proof (cases "i = m")
      case True
      with h have jm: "j \<noteq> m" by simp
      with h v' [OF j'] have vj: "valid (ls ! j)" by simp
      have "lru_age (ls ! j) + 1 \<noteq> 0" using small [OF j' vj] by (rule succ32_nz)
      then show ?thesis using a' [OF i'] a' [OF j'] True jm vj by simp
    next
      case im: False
      with h v' [OF i'] have vi: "valid (ls ! i)" by simp
      show ?thesis
      proof (cases "j = m")
        case True
        have "lru_age (ls ! i) + 1 \<noteq> 0" using small [OF i' vi] by (rule succ32_nz)
        then show ?thesis using a' [OF i'] a' [OF j'] True im vi by simp
      next
        case jm: False
        with h v' [OF j'] have vj: "valid (ls ! j)" by simp
        from d i' j' h vi vj have "lru_age (ls ! i) \<noteq> lru_age (ls ! j)"
          by (simp add: ages_distinct_def)
        then show ?thesis using a' [OF i'] a' [OF j'] im jm vi vj by simp
      qed
    qed
  qed
  from dist below show ?thesis ..
qed

lemma ages_lines_after:
  assumes reg: "int_size ls = int (length ls)" and ne: "0 < length ls"
    and d: "ages_distinct ls" and b: "ages_below n ls" and n: "n < 2 ^ 32"
  shows "ages_distinct (lines_after op t ls) \<and> ages_below (Suc n) (lines_after op t ls)"
proof (cases "0 \<le> find_way_loop ls t 0")
  case True
  define w where "w = nat (find_way_loop ls t 0)"
  from find_way_loop_hit [OF reg _ True] have w: "w < length ls" "valid (ls ! w)"
    by (simp_all add: w_def)
  let ?ls2 = "if op = Write then ls[w := (ls ! w)\<lparr>dirty := True\<rparr>] else ls"
  have eq: "lines_after op t ls = touch_lines ?ls2 (int w)"
    using True by (simp add: lines_after_def w_def)
  show ?thesis
    unfolding eq
    by (rule ages_touch [OF _ w(1) _ _ _ d b n]) (use w in \<open>simp_all add: nth_update_keeps\<close>)
next
  case False
  define v where "v = nat (choose_victim_loop ls 0 0 0)"
  have v: "v < length ls" and v0: "0 \<le> choose_victim_loop ls 0 0 0"
    using victim_in_range [OF reg ne] by (simp_all add: v_def)
  let ?ls2 = "ls[v := (ls ! v)\<lparr>valid := True, dirty := (op = Write), tag := t\<rparr>]"
  have eq: "lines_after op t ls = touch_lines ?ls2 (int v)"
    using False v0 by (simp add: lines_after_def v_def)
  show ?thesis
    unfolding eq
    by (rule ages_touch [OF _ v _ _ _ d b n]) (use v in \<open>simp_all add: nth_update_keeps\<close>)
qed

lemma set_ages_ok_lines_after:
  "0 < length ls \<Longrightarrow> n < 2 ^ 32 \<Longrightarrow> set_ages_ok n ls \<Longrightarrow> set_ages_ok (Suc n) (lines_after op t ls)"
  unfolding set_ages_ok_def
  using ages_lines_after [of ls n op t] only_way0_lines_after [of ls op t]
  by auto

lemma set_ages_ok_Suc: "set_ages_ok n ls \<Longrightarrow> set_ages_ok (Suc n) ls"
  unfolding set_ages_ok_def ages_below_def by (auto intro: less_SucI)

lemma ages_inv_access:
  assumes "ages_inv n c" "n < 2 ^ 32"
  shows "ages_inv (Suc n) (fst (snd (access op addr c nl)))"
proof -
  from assms have ok: "index_ok c" and all: "\<forall>ls \<in> set (sets_vec c). set_ages_ok n ls"
    by (simp_all add: ages_inv_def)
  let ?i = "unat (index_of c addr)"
  have i: "?i < length (sets_vec c)" using ok by (rule index_ok_less)
  then have mem: "sets_vec c ! ?i \<in> set (sets_vec c)" by simp
  then have "0 < length (sets_vec c ! ?i)" using ok by (simp add: index_ok_def)
  with all mem assms(2) have new: "set_ages_ok (Suc n) (lines_after op (tag_of c addr) (sets_vec c ! ?i))"
    by (intro set_ages_ok_lines_after) auto
  have "set_ages_ok (Suc n) ls" if "ls \<in> set (sets_vec (fst (snd (access op addr c nl))))" for ls
  proof -
    from that have "ls \<in> insert (lines_after op (tag_of c addr) (sets_vec c ! ?i)) (set (sets_vec c))"
      unfolding sets_vec_access by (rule set_update_subset_insert [THEN subsetD])
    then show ?thesis using new all by (auto intro: set_ages_ok_Suc)
  qed
  then have "\<forall>ls \<in> set (sets_vec (fst (snd (access op addr c nl)))). set_ages_ok (Suc n) ls" by blast
  with index_ok_access [OF ok] show ?thesis by (simp add: ages_inv_def)
qed

lemma ages_inv_calls:
  "ages_inv n c \<Longrightarrow> n + length xs \<le> 2 ^ 32 \<Longrightarrow> ages_inv (n + length xs) (calls c xs)"
proof (induction xs arbitrary: c n)
  case Nil
  then show ?case by simp
next
  case (Cons x xs)
  obtain op addr nl where x: "x = (op, addr, nl)" by (cases x) auto
  from Cons.prems(2) have n: "n < 2 ^ 32" by simp
  have "ages_inv (Suc n) (fst (snd (access op addr c nl)))"
    using Cons.prems(1) n by (rule ages_inv_access)
  from Cons.IH [OF this] Cons.prems(2) show ?case by (simp add: x)
qed

lemma ages_inv_ctor:
  assumes "Cache_ctor conf = Some c"
  shows "ages_inv 0 c"
proof -
  note f = Cache_ctor_Some [OF assms]
  let ?ls = "map (\<lambda>j. \<lparr>valid = False, dirty = False, tag = 0, lru_age = of_nat j\<rparr>) [0..<unat (assoc conf)]"
  have "length ?ls < 2 ^ 32" using f(8) by simp
  from int_size_cases [OF this] have "set_ages_ok 0 ?ls"
    by (auto simp: set_ages_ok_def ages_distinct_def ages_below_def only_way0_def)
  then have "\<forall>ls \<in> set (sets_vec c). set_ages_ok 0 ls" by (simp add: f(9))
  with index_ok_ctor [OF assms] show ?thesis by (simp add: ages_inv_def)
qed

lemma set_ages_ok_distinct: "set_ages_ok n ls \<Longrightarrow> ages_distinct ls"
  by (auto simp: set_ages_ok_def dest: only_way0_distinct)

text \<open>Distinct keys make the sorted order strict.\<close>

lemma distinct_map_filter_nth:
  assumes "\<forall>i < length ls. \<forall>j < length ls. i \<noteq> j \<and> P (ls ! i) \<and> P (ls ! j) \<longrightarrow> f (ls ! i) \<noteq> f (ls ! j)"
  shows "distinct (map f (filter P ls))"
  using assms
proof (induction ls)
  case Nil
  then show ?case by simp
next
  case (Cons x xs)
  have tl: "\<forall>i < length xs. \<forall>j < length xs. i \<noteq> j \<and> P (xs ! i) \<and> P (xs ! j) \<longrightarrow> f (xs ! i) \<noteq> f (xs ! j)"
  proof (intro allI impI)
    fix i j assume "i < length xs" "j < length xs" "i \<noteq> j \<and> P (xs ! i) \<and> P (xs ! j)"
    with Cons.prems [rule_format, of "Suc i" "Suc j"] show "f (xs ! i) \<noteq> f (xs ! j)" by simp
  qed
  have hd: "f x \<noteq> f y" if "P x" "y \<in> set xs" "P y" for y
  proof -
    from that(2) obtain k where k: "k < length xs" "xs ! k = y" by (auto simp: in_set_conv_nth)
    with Cons.prems [rule_format, of 0 "Suc k"] that show ?thesis by simp
  qed
  from Cons.IH [OF tl] hd show ?case by auto
qed

lemma distinct_map_insort_key:
  "distinct (map f (insort_key f x xs)) = (f x \<notin> f ` set xs \<and> distinct (map f xs))"
  by (induction xs) (auto simp: set_insort_key)

lemma distinct_map_sort_key: "distinct (map f (sort_key f xs)) = distinct (map f xs)"
  by (induction xs) (simp_all add: distinct_map_insort_key)

lemma ages_distinct_sorted:
  assumes "ages_distinct ls"
  shows "sorted_wrt (<) (map lru_age (sort_key lru_age (filter valid ls)))"
proof -
  have "distinct (map lru_age (filter valid ls))"
    using assms unfolding ages_distinct_def by (rule distinct_map_filter_nth)
  then have "distinct (map lru_age (sort_key lru_age (filter valid ls)))"
    by (simp add: distinct_map_sort_key)
  moreover have "sorted (map lru_age (sort_key lru_age (filter valid ls)))"
    by (rule sorted_sort_key)
  ultimately show ?thesis by (simp add: strict_sorted_iff)
qed

text \<open>Every counter goes up by at most one in a call.\<close>

lemma stats_access:
  "\<exists>rm wm wb mr mw.
     stats (fst (snd (access op addr c nl))) =
       (stats c)\<lparr>reads := reads (stats c) + (if op = Read then 1 else 0),
                 writes := writes (stats c) + (if op = Write then 1 else 0),
                 read_misses := read_misses (stats c) + (if op = Read \<and> rm then 1 else 0),
                 write_misses := write_misses (stats c) + (if op = Write \<and> wm then 1 else 0),
                 writebacks := writebacks (stats c) + (if wb then 1 else 0),
                 memory_reads := memory_reads (stats c) + (if mr then 1 else 0),
                 memory_writes := memory_writes (stats c) + (if mw then 1 else 0)\<rparr>"
proof (cases "0 \<le> find_way c (index_of c addr) (tag_of c addr)")
  case True
  show ?thesis
    by (rule exI [of _ False])+ (cases op; simp add: access_hit [OF True])
next
  case False
  then have miss: "find_way c (index_of c addr) (tag_of c addr) < 0" by simp
  let ?vd = "valid (sets_vec c ! unat (index_of c addr) ! nat (choose_victim_way c (index_of c addr))) \<and>
             dirty (sets_vec c ! unat (index_of c addr) ! nat (choose_victim_way c (index_of c addr)))"
  show ?thesis
    apply (rule exI [of _ True])
    apply (rule exI [of _ True])
    apply (rule exI [of _ ?vd])
    apply (rule exI [of _ "nl = None"])
    apply (rule exI [of _ "?vd \<and> nl = None"])
    apply (cases nl; cases op)
       apply (simp_all add: access_miss [OF miss] allocate_on_miss_None allocate_on_miss_Some Let_def)
    done
qed

lemma bump64:
  assumes "unat (x :: u64) \<le> n" "n < 2 ^ 64 - 1"
  shows "unat (x + (if b then 1 else 0)) = unat x + (if b then 1 else 0)"
    and "x \<le> x + (if b then 1 else 0)"
proof -
  from assms have "unat x < 2 ^ 64 - 1" by simp
  then have s: "unat (x + 1) = unat x + 1" by (rule unat_succ64)
  then show "unat (x + (if b then 1 else 0)) = unat x + (if b then 1 else 0)" by simp
  from s have "unat x \<le> unat (x + 1)" by simp
  then have "x \<le> x + 1" by (simp add: word_le_nat_alt)
  then show "x \<le> x + (if b then 1 else 0)" by simp
qed

lemma stats_step:
  assumes b: "stats_bounded n (stats c)" and n: "n < 2 ^ 64 - 1"
  shows "stats_bounded (Suc n) (stats (fst (snd (access op addr c nl)))) \<and>
         stats_le (stats c) (stats (fst (snd (access op addr c nl))))"
proof -
  from stats_access [of op addr c nl] obtain rm wm wb mr mw where
    e: "stats (fst (snd (access op addr c nl))) =
       (stats c)\<lparr>reads := reads (stats c) + (if op = Read then 1 else 0),
                 writes := writes (stats c) + (if op = Write then 1 else 0),
                 read_misses := read_misses (stats c) + (if op = Read \<and> rm then 1 else 0),
                 write_misses := write_misses (stats c) + (if op = Write \<and> wm then 1 else 0),
                 writebacks := writebacks (stats c) + (if wb then 1 else 0),
                 memory_reads := memory_reads (stats c) + (if mr then 1 else 0),
                 memory_writes := memory_writes (stats c) + (if mw then 1 else 0)\<rparr>"
    by blast
  from b have le: "unat (reads (stats c)) \<le> n" "unat (writes (stats c)) \<le> n"
    "unat (read_misses (stats c)) \<le> n" "unat (write_misses (stats c)) \<le> n"
    "unat (writebacks (stats c)) \<le> n" "unat (memory_reads (stats c)) \<le> n"
    "unat (memory_writes (stats c)) \<le> n"
    by (auto simp: stats_bounded_def)
  note u = bump64(1) [OF le(1) n, of True, simplified] bump64(1) [OF le(2) n, of True, simplified]
    bump64(1) [OF le(3) n, of True, simplified] bump64(1) [OF le(4) n, of True, simplified]
    bump64(1) [OF le(5) n, of True, simplified] bump64(1) [OF le(6) n, of True, simplified]
    bump64(1) [OF le(7) n, of True, simplified]
  note m = bump64(2) [OF le(1) n] bump64(2) [OF le(2) n] bump64(2) [OF le(3) n]
    bump64(2) [OF le(4) n] bump64(2) [OF le(5) n] bump64(2) [OF le(6) n] bump64(2) [OF le(7) n]
  have "stats_bounded (Suc n) (stats (fst (snd (access op addr c nl))))"
    unfolding e stats_bounded_def using b
    by (cases op) (auto simp: u stats_bounded_def)
  moreover have "stats_le (stats c) (stats (fst (snd (access op addr c nl))))"
    unfolding e stats_le_def by (simp add: m)
  ultimately show ?thesis ..
qed

lemma stats_le_refl: "stats_le s s"
  by (simp add: stats_le_def)

lemma stats_le_trans: "stats_le a b \<Longrightarrow> stats_le b c \<Longrightarrow> stats_le a c"
  unfolding stats_le_def by (meson order_trans)

lemma stats_calls:
  "stats_bounded n (stats c) \<Longrightarrow> n + length xs < 2 ^ 64 \<Longrightarrow>
   stats_bounded (n + length xs) (stats (calls c xs)) \<and> stats_le (stats c) (stats (calls c xs))"
proof (induction xs arbitrary: c n)
  case Nil
  then show ?case by (simp add: stats_le_refl)
next
  case (Cons x xs)
  obtain op addr nl where x: "x = (op, addr, nl)" by (cases x) auto
  from Cons.prems(2) have n: "n < 2 ^ 64 - 1" by simp
  note s = stats_step [OF Cons.prems(1) n, of op addr nl]
  from Cons.IH [of "Suc n" "fst (snd (access op addr c nl))"] s Cons.prems(2)
  show ?case by (auto simp: x intro: stats_le_trans)
qed

lemma stats_bounded_ctor: "Cache_ctor conf = Some c \<Longrightarrow> stats_bounded 0 (stats c)"
  using Cache_ctor_Some(2) [of conf c] by (simp add: stats_bounded_def AccessStats_ctor_def)

lemma reads_replicate:
  "reads (stats (calls c (replicate n (Read, a, nl)))) = reads (stats c) + of_nat n \<and>
   writes (stats (calls c (replicate n (Read, a, nl)))) = writes (stats c)"
proof (induction n arbitrary: c)
  case 0
  then show ?case by simp
next
  case (Suc n)
  from stats_access [of Read a c nl]
  have "reads (stats (fst (snd (access Read a c nl)))) = reads (stats c) + 1"
    and "writes (stats (fst (snd (access Read a c nl)))) = writes (stats c)"
    by auto
  with Suc [of "fst (snd (access Read a c nl))"] show ?case by (simp add: add.assoc add.commute)
qed


text \<open>The geometry does not change along a sequence of calls.\<close>

lemma calls_frame:
  "cfg (calls c xs) = cfg c \<and> sets (calls c xs) = sets c \<and> off_bits (calls c xs) = off_bits c \<and>
   idx_bits (calls c xs) = idx_bits c \<and> idx_mask (calls c xs) = idx_mask c"
  by (induction xs arbitrary: c) (auto simp: access_frame)

lemma reset_same_geometry:
  assumes "Cache_ctor conf = Some c0"
    and "cfg c = cfg c0" "sets c = sets c0" "off_bits c = off_bits c0" "idx_bits c = idx_bits c0"
      "idx_mask c = idx_mask c0"
  shows "reset c = Some c0"
proof -
  from assms(1) obtain g where i: "init_storage g = Some c0"
    by (auto simp: Cache_ctor_def split: option.splits)
  then have ok: "\<not> (0 < unat (sets g) \<and> 2 ^ 32 \<le> unat (assoc (cfg g)))"
    and c0: "c0 = g\<lparr>sets_vec := map (\<lambda>ls. init_ages ls 0)
               (replicate (unat (sets g)) (replicate (unat (assoc (cfg g))) Line_default))\<rparr>"
    by (auto simp: init_storage_def split: if_splits)
  have g: "sets c0 = sets g" "cfg c0 = cfg g" by (simp_all add: c0)
  have st: "stats c0 = AccessStats_ctor" using assms(1) by (rule Cache_ctor_Some(2))
  have "reset c = Some (c\<lparr>stats := AccessStats_ctor,
             sets_vec := map (\<lambda>ls. init_ages ls 0)
               (replicate (unat (sets g)) (replicate (unat (assoc (cfg g))) Line_default))\<rparr>)"
    using ok by (simp add: reset_def init_storage_def assms(2,3) g)
  also have "c\<lparr>stats := AccessStats_ctor,
             sets_vec := map (\<lambda>ls. init_ages ls 0)
               (replicate (unat (sets g)) (replicate (unat (assoc (cfg g))) Line_default))\<rparr> = c0"
    by (rule Cache.equality) (simp_all add: assms st, simp add: c0)
  finally show ?thesis .
qed

text \<open>
  \<open>geom_ok\<close> holds in every state reached from the construction of a cache with fewer
  than \<open>2 ^ 31\<close> ways.
\<close>

lemma geom_ok_access: "geom_ok c \<Longrightarrow> geom_ok (fst (snd (access op addr c nl)))"
proof -
  assume g: "geom_ok c"
  then have ok: "index_ok c" and small: "\<forall>ls \<in> set (sets_vec c). length ls < 2 ^ 31"
    by (simp_all add: geom_ok_def)
  let ?i = "unat (index_of c addr)"
  have "?i < length (sets_vec c)" using ok by (rule index_ok_less)
  then have mem: "sets_vec c ! ?i \<in> set (sets_vec c)" by simp
  have "length ls < 2 ^ 31" if "ls \<in> set (sets_vec (fst (snd (access op addr c nl))))" for ls
  proof -
    from that have "ls \<in> insert (lines_after op (tag_of c addr) (sets_vec c ! ?i)) (set (sets_vec c))"
      unfolding sets_vec_access by (rule set_update_subset_insert [THEN subsetD])
    then consider "ls = lines_after op (tag_of c addr) (sets_vec c ! ?i)" | "ls \<in> set (sets_vec c)"
      by blast
    then show ?thesis
    proof cases
      case 1
      then have "length ls = length (sets_vec c ! ?i)" by simp
      then show ?thesis using bspec [OF small mem] by simp
    next
      case 2
      then show ?thesis by (rule bspec [OF small])
    qed
  qed
  with index_ok_access [OF ok] show ?thesis by (simp add: geom_ok_def)
qed

lemma geom_ok_reachable:
  assumes "Cache_ctor conf = Some c0" and "unat (assoc conf) < 2 ^ 31"
  shows "geom_ok (calls c0 xs)"
proof -
  have "geom_ok c0"
    using index_ok_ctor [OF assms(1)] assms(2)
    by (simp add: geom_ok_def Cache_ctor_Some(9) [OF assms(1)])
  then show ?thesis by (rule calls_invariant) (rule geom_ok_access)
qed

lemma touch_as_mru_ages:
  assumes "unat si < length (sets_vec c)" and "j < length (sets_vec c ! unat si)"
  shows "lru_age (sets_vec (touch_as_mru c si way) ! unat si ! j) =
           (if j = nat way then 0
            else if valid (sets_vec c ! unat si ! j) then lru_age (sets_vec c ! unat si ! j) + 1
            else lru_age (sets_vec c ! unat si ! j))"
  using assms by (simp add: sets_vec_touch_as_mru touch_lines_age)

section \<open>The claims\<close>



text \<open>
  C2. On a miss whose victim way holds a valid dirty line, \<open>writebacks\<close> goes up by one
  and the victim's address is rebuilt from its tag and the set index, with the offset
  bits zero. Without a next level \<open>memory_writes\<close> goes up by one (and \<open>memory_reads\<close>
  by one for the fill). With a next level \<open>n\<close> neither memory counter of this cache
  changes, and the next level ends in the state that one write access with the rebuilt
  address, followed by one read access with the block-aligned requesting address,
  leaves it in: the writeback comes first, and each of the two calls is given no
  next level of its own. When the victim is invalid or clean, \<open>writebacks\<close> and
  \<open>memory_writes\<close> stay as they are and the next level only sees the read.
\<close>

theorem C2_dirty_victim_writeback:
  assumes "geom_ok c" and "\<not> fst (access op addr c nl)"
  shows "let si = index_of c addr; vl = sets_vec c ! unat si ! nat (choose_victim_way c si);
             va = victim_block_addr c si vl;
             c' = fst (snd (access op addr c nl)); nl' = snd (snd (access op addr c nl))
         in (valid vl \<and> dirty vl \<longrightarrow>
               writebacks (stats c') = writebacks (stats c) + 1 \<and>
               va = ucast (push_bit (unat (idx_bits c + off_bits c)) (tag vl)
                           OR ucast (push_bit (unat (off_bits c)) (ucast si :: u32))) \<and>
               take_bit (unat (off_bits c)) va = 0 \<and>
               (case nl of
                  None \<Rightarrow>
                    memory_writes (stats c') = memory_writes (stats c) + 1 \<and>
                    memory_reads (stats c') = memory_reads (stats c) + 1 \<and> nl' = None
                | Some n \<Rightarrow>
                    memory_writes (stats c') = memory_writes (stats c) \<and>
                    memory_reads (stats c') = memory_reads (stats c) \<and>
                    snd (snd (access Write va n None)) = None \<and>
                    nl' = Some (fst (snd (access Read (block_aligned c addr)
                                  (fst (snd (access Write va n None))) None))))) \<and>
            (\<not> (valid vl \<and> dirty vl) \<longrightarrow>
               writebacks (stats c') = writebacks (stats c) \<and>
               memory_writes (stats c') = memory_writes (stats c) \<and>
               (case nl of
                  None \<Rightarrow> memory_reads (stats c') = memory_reads (stats c) + 1 \<and> nl' = None
                | Some n \<Rightarrow>
                    memory_reads (stats c') = memory_reads (stats c) \<and>
                    nl' = Some (fst (snd (access Read (block_aligned c addr) n None)))))"
proof -
  from assms(1) have b: "unat (off_bits c) < 32" "unat (idx_bits c) < 32"
    by (simp_all add: geom_ok_def index_ok_def)
  note e = access_miss_effects [OF assms(2)]
  show ?thesis
    unfolding Let_def e
    by (cases nl)
       (simp_all add: victim_block_addr_aligned [OF b] access_no_next,
        simp_all add: victim_block_addr_def)
qed

theorem C2_witness:
  "geom_ok demo_full \<and> \<not> fst (access Write 0x300 demo_full None) \<and>
   writebacks (stats (fst (snd (access Write 0x300 demo_full None)))) = 1 \<and>
   memory_writes (stats (fst (snd (access Write 0x300 demo_full None)))) = 1 \<and>
   memory_reads (stats (fst (snd (access Write 0x300 demo_full None)))) = 3 \<and>
   victim_block_addr demo_full 0 (sets_vec demo_full ! 0 ! 0) = 0x100"
proof -
  have miss: "\<not> fst (access Write 0x300 demo_full None)"
    by (simp add: access_fst demo_index demo_find)
  have vd: "valid (sets_vec demo_full ! 0 ! 0) \<and> dirty (sets_vec demo_full ! 0 ! 0)"
    by (simp add: demo_defs)
  have st: "writebacks (stats demo_full) = 0" "memory_writes (stats demo_full) = 0"
    "memory_reads (stats demo_full) = 2"
    by (simp_all add: demo_defs)
  have va: "victim_block_addr demo_full 0 (sets_vec demo_full ! 0 ! 0) = 0x100"
    by (simp add: demo_defs victim_block_addr_def)
  from C2_dirty_victim_writeback [OF geom_ok_demo_full miss] vd miss geom_ok_demo_full va
  show ?thesis
    unfolding Let_def demo_index demo_victim by (simp add: st)
qed



text \<open>
  C4. \<open>touch_as_mru\<close> gives the touched way age 0, increments the age of every other
  way that holds a valid line as \<open>++\<close> on a \<open>uint32_t\<close> does, and leaves the age of every
  other way that holds no valid line. The same is true of a whole \<open>access\<close>, with \<open>m\<close>
  the way it touches (the way found on a hit, the victim way filled on a miss); there
  the increment is one more than before unless the age was \<open>2 ^ 32 - 1\<close>, and the
  other sets are as before.
\<close>

theorem C4_recency_update:
  assumes "geom_ok c"
  shows "(\<forall>si way.
            unat si < length (sets_vec c) \<and> nat way < length (sets_vec c ! unat si) \<longrightarrow>
            lru_age (sets_vec (touch_as_mru c si way) ! unat si ! nat way) = 0 \<and>
            (\<forall>j < length (sets_vec c ! unat si). j \<noteq> nat way \<longrightarrow>
               lru_age (sets_vec (touch_as_mru c si way) ! unat si ! j) =
                 (if valid (sets_vec c ! unat si ! j) then lru_age (sets_vec c ! unat si ! j) + 1
                  else lru_age (sets_vec c ! unat si ! j)))) \<and>
         (let si = index_of c addr; t = tag_of c addr; ls = sets_vec c ! unat si;
             m = nat (if fst (access op addr c nl) then find_way c si t
                      else choose_victim_way c si);
             ls' = sets_vec (fst (snd (access op addr c nl))) ! unat si
         in m < length ls \<and> length ls' = length ls \<and> lru_age (ls' ! m) = 0 \<and>
            (\<forall>j < length ls. j \<noteq> m \<longrightarrow>
               (valid (ls ! j) \<longrightarrow>
                  lru_age (ls' ! j) = lru_age (ls ! j) + 1 \<and>
                  (unat (lru_age (ls ! j)) < 2 ^ 32 - 1 \<longrightarrow>
                     unat (lru_age (ls' ! j)) = unat (lru_age (ls ! j)) + 1)) \<and>
               (\<not> valid (ls ! j) \<longrightarrow> lru_age (ls' ! j) = lru_age (ls ! j))) \<and>
            (\<forall>k < length (sets_vec c). k \<noteq> unat si \<longrightarrow>
               sets_vec (fst (snd (access op addr c nl))) ! k = sets_vec c ! k))"
proof -
  have touch: "lru_age (sets_vec (touch_as_mru c si way) ! unat si ! nat way) = 0 \<and>
            (\<forall>j < length (sets_vec c ! unat si). j \<noteq> nat way \<longrightarrow>
               lru_age (sets_vec (touch_as_mru c si way) ! unat si ! j) =
                 (if valid (sets_vec c ! unat si ! j) then lru_age (sets_vec c ! unat si ! j) + 1
                  else lru_age (sets_vec c ! unat si ! j)))"
    if "unat si < length (sets_vec c)" "nat way < length (sets_vec c ! unat si)" for si way
    using that by (simp add: touch_as_mru_ages)
  define si where "si = index_of c addr"
  define t where "t = tag_of c addr"
  define ls where "ls = sets_vec c ! unat si"
  define mw where "mw = (if fst (access op addr c nl) then find_way c si t else choose_victim_way c si)"
  define m where "m = nat mw"
  define ls' where "ls' = sets_vec (fst (snd (access op addr c nl))) ! unat si"
  from access_touched_set [OF assms, of addr op nl]
  obtain ls2 where len: "length ls2 = length ls"
    and ages: "\<forall>j < length ls2. lru_age (ls2 ! j) = lru_age (ls ! j)"
    and vals: "\<forall>j < length ls2. j \<noteq> m \<longrightarrow> valid (ls2 ! j) = valid (ls ! j)"
    and m: "m < length ls2"
    and eq: "ls' = touch_lines ls2 mw"
    unfolding si_def [symmetric] t_def [symmetric] ls_def [symmetric] mw_def [symmetric]
      m_def [symmetric] ls'_def [symmetric]
    by blast
  have a: "m < length ls \<and> length ls' = length ls \<and> lru_age (ls' ! m) = 0"
    using m len by (simp add: eq touch_lines_age m_def)
  have b: "(valid (ls ! j) \<longrightarrow>
              lru_age (ls' ! j) = lru_age (ls ! j) + 1 \<and>
              (unat (lru_age (ls ! j)) < 2 ^ 32 - 1 \<longrightarrow>
                 unat (lru_age (ls' ! j)) = unat (lru_age (ls ! j)) + 1)) \<and>
           (\<not> valid (ls ! j) \<longrightarrow> lru_age (ls' ! j) = lru_age (ls ! j))"
    if "j < length ls" "j \<noteq> m" for j
  proof -
    from that len have j: "j < length ls2" by simp
    with that ages vals have "lru_age (ls2 ! j) = lru_age (ls ! j)" "valid (ls2 ! j) = valid (ls ! j)"
      by simp_all
    then have "lru_age (ls' ! j) = (if valid (ls ! j) then lru_age (ls ! j) + 1 else lru_age (ls ! j))"
      using j that by (simp add: eq touch_lines_age m_def)
    then show ?thesis by (auto simp: unat_succ32)
  qed
  have c: "sets_vec (fst (snd (access op addr c nl))) ! k = sets_vec c ! k"
    if "k \<noteq> unat si" for k
    using that unfolding si_def by (rule sets_vec_access_other)
  show ?thesis
    unfolding Let_def si_def [symmetric] t_def [symmetric] ls_def [symmetric] mw_def [symmetric]
      m_def [symmetric] ls'_def [symmetric]
    using touch a b c by blast
qed

theorem C4_witness:
  "geom_ok demo_full \<and>
   lru_age (sets_vec (fst (snd (access Read 0x200 demo_full None))) ! 0 ! 1) = 0 \<and>
   lru_age (sets_vec (fst (snd (access Read 0x200 demo_full None))) ! 0 ! 0) = 2"
proof -
  have hit: "fst (access Read 0x200 demo_full None)"
    by (simp add: access_fst demo_index demo_find)
  have ls: "sets_vec demo_full ! 0 =
              [\<lparr>valid = True, dirty = True, tag = 8, lru_age = 1\<rparr>,
               \<lparr>valid = True, dirty = False, tag = 16, lru_age = 0\<rparr>]"
    by (simp add: demo_full_def)
  from C4_recency_update [OF geom_ok_demo_full, of "0x200" Read None]
  show ?thesis
    unfolding Let_def demo_index demo_find using hit geom_ok_demo_full by (simp add: ls)
qed

text \<open>
  As stated, C4 fails once an age has reached \<open>2 ^ 32 - 1\<close>. After the \<open>2 ^ 32\<close> calls
  of \<open>hot_trace 4294967294\<close> way 0 of set 0 is valid with that age; one more read hit on
  way 1 leaves it with age 0, not with an age one greater.
\<close>

theorem C4_counterexample:
  "aged_state = calls demo_l1 (hot_trace 4294967294) \<and>
   fst (access Read 0x200 aged_state None) \<and>
   nat (find_way aged_state (index_of aged_state 0x200) (tag_of aged_state 0x200)) = 1 \<and>
   valid (sets_vec aged_state ! unat (index_of aged_state 0x200) ! 0) \<and>
   unat (lru_age (sets_vec aged_state ! unat (index_of aged_state 0x200) ! 0)) = 4294967295 \<and>
   unat (lru_age (sets_vec (fst (snd (access Read 0x200 aged_state None)))
                    ! unat (index_of aged_state 0x200) ! 0)) = 0"
proof -
  note f = aged_state_facts
  have i: "index_of aged_state 0x200 = 0" and t: "tag_of aged_state 0x200 = 16"
    by (simp_all add: index_of_def tag_of_def f)
  have w: "find_way aged_state 0 16 = 1"
    by (simp add: find_way_def f find_way_loop.simps int_size_def)
  have hit: "fst (access Read 0x200 aged_state None)" by (simp add: access_fst i t w)
  have after: "sets_vec (fst (snd (access Read 0x200 aged_state None))) =
           [[\<lparr>valid = True, dirty = True, tag = 8, lru_age = - 1 + 1\<rparr>,
             \<lparr>valid = True, dirty = False, tag = 16, lru_age = 0\<rparr>], [fresh_line 0, fresh_line 1]]"
    by (rule hot_step(1) [OF f])
  have before: "valid (sets_vec aged_state ! 0 ! 0)"
    "unat (lru_age (sets_vec aged_state ! 0 ! 0)) = 4294967295"
    by (simp_all add: f unsigned_minus_1_eq_mask mask_eq_exp_minus_1)
  have "unat (lru_age (sets_vec (fst (snd (access Read 0x200 aged_state None))) ! 0 ! 0)) = 0"
    unfolding after by simp
  with before hit show ?thesis
    unfolding i t w by (simp add: aged_state_def [symmetric])
qed



text \<open>
  C6. For a cache from its construction and a sequence of fewer than \<open>2 ^ 64\<close> calls of
  \<open>access\<close> on it: \<open>reads + writes\<close> is the number of calls, \<open>read_misses \<le> reads\<close>,
  \<open>write_misses \<le> writes\<close>, the three prefetch counters are zero, and no counter is
  smaller after a longer prefix of the sequence than after a shorter one.
\<close>

theorem C6_counters:
  assumes "Cache_ctor conf = Some c0" and "length xs < 2 ^ 64"
  shows "unat (reads (stats (calls c0 xs))) + unat (writes (stats (calls c0 xs))) = length xs \<and>
         read_misses (stats (calls c0 xs)) \<le> reads (stats (calls c0 xs)) \<and>
         write_misses (stats (calls c0 xs)) \<le> writes (stats (calls c0 xs)) \<and>
         pref_issued (stats (calls c0 xs)) = 0 \<and> pref_useful (stats (calls c0 xs)) = 0 \<and>
         pref_late (stats (calls c0 xs)) = 0 \<and>
         (\<forall>i j. i \<le> j \<longrightarrow>
            stats_le (stats (calls c0 (take i xs))) (stats (calls c0 (take j xs))))"
proof -
  note z = stats_bounded_ctor [OF assms(1)]
  have "stats_bounded (0 + length xs) (stats (calls c0 xs))"
    using stats_calls [OF z, of xs] assms(2) by simp
  then have a: "unat (reads (stats (calls c0 xs))) + unat (writes (stats (calls c0 xs))) = length xs \<and>
         read_misses (stats (calls c0 xs)) \<le> reads (stats (calls c0 xs)) \<and>
         write_misses (stats (calls c0 xs)) \<le> writes (stats (calls c0 xs)) \<and>
         pref_issued (stats (calls c0 xs)) = 0 \<and> pref_useful (stats (calls c0 xs)) = 0 \<and>
         pref_late (stats (calls c0 xs)) = 0"
    by (simp add: stats_bounded_def word_le_nat_alt)
  have b: "stats_le (stats (calls c0 (take i xs))) (stats (calls c0 (take j xs)))" if "i \<le> j" for i j
  proof -
    have len: "length (take i xs) + length (take (j - i) (drop i xs)) < 2 ^ 64"
      using assms(2) by simp
    have "stats_bounded (0 + length (take i xs)) (stats (calls c0 (take i xs)))"
      using stats_calls [OF z, of "take i xs"] assms(2) by simp
    then have "stats_bounded (length (take i xs)) (stats (calls c0 (take i xs)))" by simp
    from stats_calls [OF this len]
    have "stats_le (stats (calls c0 (take i xs)))
            (stats (calls (calls c0 (take i xs)) (take (j - i) (drop i xs))))" by simp
    moreover have "take j xs = take i xs @ take (j - i) (drop i xs)"
      using that take_add [of i "j - i" xs] by simp
    ultimately show ?thesis by (simp add: calls_append)
  qed
  from a b show ?thesis by blast
qed

theorem C6_witness:
  "Cache_ctor demo_cfg = Some demo_l1 \<and>
   unat (reads (stats (calls demo_l1 demo_trace))) + unat (writes (stats (calls demo_l1 demo_trace))) = 4 \<and>
   read_misses (stats (calls demo_l1 demo_trace)) \<le> reads (stats (calls demo_l1 demo_trace)) \<and>
   stats_le (stats (calls demo_l1 (take 1 demo_trace))) (stats (calls demo_l1 (take 3 demo_trace)))"
proof -
  have "length demo_trace < 2 ^ 64" and "length demo_trace = 4" by (simp_all add: demo_trace_def)
  with C6_counters [OF demo_ctor, of demo_trace] demo_ctor show ?thesis by auto
qed

text \<open>
  Without the bound C6 fails: the counters are \<open>uint64_t\<close>, and after \<open>2 ^ 64\<close> reads
  \<open>reads\<close> is back at 0.
\<close>

theorem C6_counterexample:
  "Cache_ctor demo_cfg = Some demo_l1 \<and> length long_trace = 18446744073709551616 \<and>
   unat (reads (stats (calls demo_l1 long_trace))) + unat (writes (stats (calls demo_l1 long_trace))) = 0"
proof -
  have "reads (stats demo_l1) = 0" "writes (stats demo_l1) = 0"
    by (simp_all add: demo_l1_def AccessStats_ctor_def)
  with reads_replicate [of demo_l1 18446744073709551616 "0x100" None]
  have "reads (stats (calls demo_l1 long_trace)) = 0 \<and> writes (stats (calls demo_l1 long_trace)) = 0"
    by (simp add: long_trace_def)
  moreover have "length long_trace = 18446744073709551616" by (simp add: long_trace_def)
  ultimately show ?thesis using demo_ctor by simp
qed

text \<open>
  C7. In every state reachable from construction by a sequence of \<open>access\<close> calls, no
  set holds two valid lines with equal tags.
\<close>

theorem C7_no_duplicate_tags:
  assumes "Cache_ctor conf = Some c0"
  shows "\<forall>ls \<in> set (sets_vec (calls c0 xs)). tags_distinct ls"
proof -
  have "tags_inv (calls c0 xs)"
    using tags_inv_ctor [OF assms] by (rule calls_invariant) (rule tags_inv_access)
  then show ?thesis by (auto simp: tags_inv_def dest: set_tags_ok_distinct)
qed

theorem C7_witness:
  "Cache_ctor demo_cfg = Some demo_l1 \<and> tags_distinct (sets_vec (calls demo_l1 demo_trace) ! 0)"
proof -
  have "0 < length (sets_vec (calls demo_l1 demo_trace))"
    by (intro sets_nonempty index_ok_calls index_ok_ctor [OF demo_ctor])
  then have "sets_vec (calls demo_l1 demo_trace) ! 0 \<in> set (sets_vec (calls demo_l1 demo_trace))"
    by (rule nth_mem)
  with C7_no_duplicate_tags [OF demo_ctor, of demo_trace] demo_ctor show ?thesis by blast
qed



text \<open>
  C9. \<open>reset\<close>, applied to a cache after any sequence of calls, gives the cache that the
  constructor built from the same configuration: every line is invalid and every
  counter is zero. In a store of instances, resetting the instance at one handle
  leaves the instance at every other handle as it was.
\<close>

theorem C9_reset:
  assumes "Cache_ctor conf = Some c0"
  shows "reset (calls c0 xs) = Some c0 \<and> stats c0 = AccessStats_ctor \<and>
         (\<forall>ls \<in> set (sets_vec c0). \<forall>ln \<in> set ls. \<not> valid ln) \<and>
         (\<forall>h p q. h p = Some (calls c0 xs) \<and> q \<noteq> p \<longrightarrow>
            (\<exists>h'. reset_at h p = Some h' \<and> h' p = Some c0 \<and> h' q = h q))"
proof -
  have r: "reset (calls c0 xs) = Some c0"
    using assms by (rule reset_same_geometry) (simp_all add: calls_frame)
  moreover have "stats c0 = AccessStats_ctor" using assms by (rule Cache_ctor_Some(2))
  moreover have "\<forall>ls \<in> set (sets_vec c0). \<forall>ln \<in> set ls. \<not> valid ln"
    by (auto simp: Cache_ctor_Some(9) [OF assms])
  moreover have "\<exists>h'. reset_at h p = Some h' \<and> h' p = Some c0 \<and> h' q = h q"
    if "h p = Some (calls c0 xs)" "q \<noteq> p" for h p q
    using that r by (simp add: reset_at_def)
  ultimately show ?thesis by blast
qed

theorem C9_witness:
  "Cache_ctor demo_cfg = Some demo_l1 \<and> reset (calls demo_l1 demo_trace) = Some demo_l1 \<and>
   reads (stats demo_l1) = 0 \<and>
   reset_at [0 \<mapsto> calls demo_l1 demo_trace, 1 \<mapsto> demo_full] 0 = Some [0 \<mapsto> demo_l1, 1 \<mapsto> demo_full]"
proof -
  note t = C9_reset [OF demo_ctor, of demo_trace]
  then have "reset (calls demo_l1 demo_trace) = Some demo_l1" by blast
  then have "reset_at [0 \<mapsto> calls demo_l1 demo_trace, 1 \<mapsto> demo_full] 0 = Some [0 \<mapsto> demo_l1, 1 \<mapsto> demo_full]"
    by (simp add: reset_at_def fun_upd_twist)
  with t demo_ctor show ?thesis by (simp add: AccessStats_ctor_def)
qed

text \<open>
  C10. In every state reached from construction by at most \<open>2 ^ 32\<close> calls of
  \<open>access\<close>, the valid lines of each set have pairwise distinct ages, so the order in
  which the snapshot lists them is strictly increasing in age.
\<close>

theorem C10_distinct_ages:
  assumes "Cache_ctor conf = Some c0" and "length xs \<le> 2 ^ 32"
  shows "\<forall>ls \<in> set (sets_vec (calls c0 xs)).
           ages_distinct ls \<and>
           sorted_wrt (<) (map lru_age (sort_key lru_age (filter valid ls)))"
proof -
  have "ages_inv (0 + length xs) (calls c0 xs)"
    using ages_inv_ctor [OF assms(1)] assms(2) by (intro ages_inv_calls) simp_all
  then have "\<forall>ls \<in> set (sets_vec (calls c0 xs)). ages_distinct ls"
    by (auto simp: ages_inv_def dest: set_ages_ok_distinct)
  then show ?thesis by (auto intro: ages_distinct_sorted)
qed

theorem C10_witness:
  "Cache_ctor demo_cfg = Some demo_l1 \<and> ages_distinct (sets_vec (calls demo_l1 demo_trace) ! 0)"
proof -
  have "0 < length (sets_vec (calls demo_l1 demo_trace))"
    by (intro sets_nonempty index_ok_calls index_ok_ctor [OF demo_ctor])
  then have "sets_vec (calls demo_l1 demo_trace) ! 0 \<in> set (sets_vec (calls demo_l1 demo_trace))"
    by (rule nth_mem)
  moreover have "length demo_trace \<le> 2 ^ 32" by (simp add: demo_trace_def)
  ultimately show ?thesis
    using C10_distinct_ages [OF demo_ctor, of demo_trace] demo_ctor by blast
qed

text \<open>
  Without the bound C10 fails: after the \<open>2 ^ 32 + 1\<close> calls of \<open>hot_trace 4294967295\<close>
  the age of the older line of set 0 has wrapped around to 0, the age of the line just
  touched.
\<close>

theorem C10_counterexample:
  "Cache_ctor demo_cfg = Some demo_l1 \<and> length (hot_trace 4294967295) = 4294967297 \<and>
   \<not> ages_distinct (sets_vec (calls demo_l1 (hot_trace 4294967295)) ! 0)"
proof -
  have "\<not> ages_distinct (sets_vec (calls demo_l1 (hot_trace 4294967295)) ! 0)"
  proof
    assume "ages_distinct (sets_vec (calls demo_l1 (hot_trace 4294967295)) ! 0)"
    then have "ages_distinct
        [\<lparr>valid = True, dirty = True, tag = 8, lru_age = 1 + of_nat 4294967295\<rparr>,
         \<lparr>valid = True, dirty = False, tag = 16, lru_age = 0\<rparr>]"
      unfolding hot_trace_state by simp
    from this [unfolded ages_distinct_def, rule_format, of 0 1] show False by simp
  qed
  moreover have "length (hot_trace 4294967295) = 4294967297" by (simp add: hot_trace_def)
  ultimately show ?thesis using demo_ctor by simp
qed

end
